theory Spec2Isabelle
  imports Main "HOL-Library.Word"
begin

section \<open>Data types\<close>

text \<open>
  The enumerations of \<^verbatim>\<open>main.cpp\<close>, with their \<^verbatim>\<open>Invalid\<close> members. Prices and
  quantities wrap \<^verbatim>\<open>std::uint64_t\<close>; an order identifier wraps \<^verbatim>\<open>std::string\<close>.
\<close>

datatype Side = Buy | Sell | Invalid

datatype TIF = GFD | IOC | Invalid

type_synonym Price = "64 word"
type_synonym Qty = "64 word"
type_synonym OrderID = string

text \<open>
  The condition asserted by \<^verbatim>\<open>Qty::operator-=\<close> (\<^verbatim>\<open>assert(value_ >= rhs.value_)\<close>).
  The operations below are modelled as the program executes them when no assertion fails:
  subtraction on \<^typ>\<open>Qty\<close> is the machine subtraction.
\<close>

definition Qty_minus_pre :: "Qty \<Rightarrow> Qty \<Rightarrow> bool" where
  "Qty_minus_pre lhs rhs \<longleftrightarrow> rhs \<le> lhs"

section \<open>Order book\<close>

text \<open>
  A pointer to a \<^verbatim>\<open>Level\<close> is modelled by the level set that holds the level (named by
  its side) and the level's price, the key of the level in that set. \<^verbatim>\<open>nullptr\<close> is
  \<^term>\<open>None\<close>. A list iterator to an order is modelled by the reference of the level that
  holds the order together with the order's identifier.
\<close>

type_synonym LevelRef = "Side \<times> Price"

record Order =
  order_id :: OrderID
  qty :: Qty
  level :: "LevelRef option"

record Level =
  level_qty :: Qty
  price :: Price
  orders :: "Order list"

record Trade =
  passive_price :: Price
  passive_order :: Order
  aggressive_price :: Price
  aggressive_order :: Order

record Book =
  buy_levels :: "Level list"
  sell_levels :: "Level list"
  orders_by_id :: "OrderID \<rightharpoonup> LevelRef"

definition new_Order :: "OrderID \<Rightarrow> Qty \<Rightarrow> Order" where
  "new_Order i q = \<lparr>order_id = i, qty = q, level = None\<rparr>"

definition new_Level :: "Price \<Rightarrow> Level" where
  "new_Level p = \<lparr>level_qty = 0, price = p, orders = []\<rparr>"

definition empty_Book :: Book where
  "empty_Book = \<lparr>buy_levels = [], sell_levels = [], orders_by_id = Map.empty\<rparr>"

subsection \<open>Level\<close>

definition find_order :: "OrderID \<Rightarrow> Order list \<Rightarrow> Order option" where
  "find_order i os = find (\<lambda>x. order_id x = i) os"

definition erase_order :: "OrderID \<Rightarrow> Order list \<Rightarrow> Order list" where
  "erase_order i os = filter (\<lambda>x. order_id x \<noteq> i) os"

definition Level_add :: "LevelRef \<Rightarrow> OrderID \<Rightarrow> Qty \<Rightarrow> Level \<Rightarrow> Level" where
  "Level_add this i q L =
     L\<lparr>orders := orders L @ [(new_Order i q)\<lparr>level := Some this\<rparr>],
       level_qty := level_qty L + q\<rparr>"

definition Level_cancel :: "OrderID \<Rightarrow> Level \<Rightarrow> Level" where
  "Level_cancel i L =
     (case find_order i (orders L) of
        None \<Rightarrow> L
      | Some ord \<Rightarrow> L\<lparr>level_qty := level_qty L - qty ord, orders := erase_order i (orders L)\<rparr>)"

definition Level_modify_qty :: "OrderID \<Rightarrow> Qty \<Rightarrow> Level \<Rightarrow> Level" where
  "Level_modify_qty i q L =
     (case find_order i (orders L) of
        None \<Rightarrow> L
      | Some ord \<Rightarrow>
          L\<lparr>level_qty := level_qty L - qty ord + q,
            orders := map (\<lambda>x. if order_id x = i then x\<lparr>qty := q\<rparr> else x) (orders L)\<rparr>)"

definition Level_modify :: "OrderID \<Rightarrow> Qty \<Rightarrow> Level \<Rightarrow> Level" where
  "Level_modify i q L =
     (let L' = Level_modify_qty i q L
      in case find_order i (orders L') of
           None \<Rightarrow> L'
         | Some ord \<Rightarrow> L'\<lparr>orders := erase_order i (orders L') @ [ord]\<rparr>)"

subsection \<open>Level sets\<close>

text \<open>
  \<^verbatim>\<open>Level::Set\<close> is a \<^verbatim>\<open>std::set\<close> ordered by \<^verbatim>\<open>CompareLevel\<close>, that is by decreasing
  price, for both sides. It is modelled by the list of its levels in iteration order.
  \<^verbatim>\<open>lower_bound(price)\<close> is the first level whose price is not greater than \<^verbatim>\<open>price\<close>;
  \<open>emplace\<close> inserts a new level there unless that level has the price already.
\<close>

fun emplace :: "Price \<Rightarrow> Level list \<Rightarrow> Level list" where
  "emplace p [] = [new_Level p]"
| "emplace p (L # Ls) =
     (if price L > p then L # emplace p Ls
      else if price L \<noteq> p then new_Level p # L # Ls
      else L # Ls)"

definition find_level :: "Price \<Rightarrow> Level list \<Rightarrow> Level option" where
  "find_level p Ls = find (\<lambda>L. price L = p) Ls"

definition update_level :: "Price \<Rightarrow> (Level \<Rightarrow> Level) \<Rightarrow> Level list \<Rightarrow> Level list" where
  "update_level p f Ls = map (\<lambda>L. if price L = p then f L else L) Ls"

definition erase_level :: "Price \<Rightarrow> Level list \<Rightarrow> Level list" where
  "erase_level p Ls = filter (\<lambda>L. price L \<noteq> p) Ls"

definition erase_if_empty :: "Price \<Rightarrow> Level list \<Rightarrow> Level list" where
  "erase_if_empty p Ls =
     (case find_level p Ls of
        None \<Rightarrow> Ls
      | Some L \<Rightarrow> if orders L = [] then erase_level p Ls else Ls)"

subsection \<open>Book\<close>

fun levels_of :: "Side \<Rightarrow> Book \<Rightarrow> Level list" where
  "levels_of Buy b = buy_levels b"
| "levels_of Sell b = sell_levels b"
| "levels_of Side.Invalid b = []"

fun map_levels :: "Side \<Rightarrow> (Level list \<Rightarrow> Level list) \<Rightarrow> Book \<Rightarrow> Book" where
  "map_levels Buy f b = b\<lparr>buy_levels := f (buy_levels b)\<rparr>"
| "map_levels Sell f b = b\<lparr>sell_levels := f (sell_levels b)\<rparr>"
| "map_levels Side.Invalid f b = b"

definition add_levels :: "Side \<Rightarrow> OrderID \<Rightarrow> Qty \<Rightarrow> Price \<Rightarrow> Book \<Rightarrow> Book" where
  "add_levels s i q p b =
     (if orders_by_id b i \<noteq> None then b
      else (map_levels s (\<lambda>Ls. update_level p (Level_add (s, p) i q) (emplace p Ls)) b)
             \<lparr>orders_by_id := (orders_by_id b)(i \<mapsto> (s, p))\<rparr>)"

definition Book_add :: "Side \<Rightarrow> OrderID \<Rightarrow> Qty \<Rightarrow> Price \<Rightarrow> Book \<Rightarrow> Book" where
  "Book_add side i q p b =
     (case side of
        Buy \<Rightarrow> add_levels Buy i q p b
      | Sell \<Rightarrow> add_levels Sell i q p b
      | Side.Invalid \<Rightarrow> b)"

definition Book_cancel :: "OrderID \<Rightarrow> Book \<Rightarrow> Book" where
  "Book_cancel i b =
     (case orders_by_id b i of
        None \<Rightarrow> b
      | Some (s, p) \<Rightarrow>
          (map_levels s (\<lambda>Ls. erase_if_empty p (update_level p (Level_cancel i) Ls)) b)
            \<lparr>orders_by_id := (orders_by_id b)(i := None)\<rparr>)"

text \<open>
  The relocation branch of \<^verbatim>\<open>Book::modify\<close>: the order is spliced out of its level and
  to the end of the level at the new price, which is created when absent; the old level
  is erased when the splice emptied it, and loses the order's quantity otherwise.
\<close>

definition splice_out :: "OrderID \<Rightarrow> Qty \<Rightarrow> Level \<Rightarrow> Level" where
  "splice_out i q0 L =
     (let os = erase_order i (orders L)
      in if os = [] then L\<lparr>orders := os\<rparr>
         else L\<lparr>orders := os, level_qty := level_qty L - q0\<rparr>)"

definition splice_in :: "LevelRef \<Rightarrow> Order \<Rightarrow> Qty \<Rightarrow> Level \<Rightarrow> Level" where
  "splice_in this ord q L =
     L\<lparr>orders := orders L @ [ord\<lparr>level := Some this, qty := q\<rparr>],
       level_qty := level_qty L + q\<rparr>"

definition modify_levels :: "Side \<Rightarrow> OrderID \<Rightarrow> Qty \<Rightarrow> Price \<Rightarrow> Book \<Rightarrow> Book" where
  "modify_levels s i q p b =
     (case orders_by_id b i of
        None \<Rightarrow> b
      | Some (s0, p0) \<Rightarrow>
          (case find_level p0 (levels_of s0 b) of
             None \<Rightarrow> b
           | Some L \<Rightarrow>
               (case find_order i (orders L) of
                  None \<Rightarrow> b
                | Some ord \<Rightarrow>
                    if s0 = s \<and> price L = p then
                      (if q = qty ord then b
                       else map_levels s (update_level p (Level_modify i q)) b)
                    else
                      (let b1 = map_levels s (emplace p) b;
                           b2 = map_levels s0 (update_level p0 (splice_out i (qty ord))) b1;
                           b3 = map_levels s (update_level p (splice_in (s, p) ord q)) b2;
                           b4 = map_levels s0 (erase_if_empty p0) b3
                       in b4\<lparr>orders_by_id := (orders_by_id b)(i \<mapsto> (s, p))\<rparr>))))"

definition Book_modify :: "Side \<Rightarrow> OrderID \<Rightarrow> Qty \<Rightarrow> Price \<Rightarrow> Book \<Rightarrow> Book" where
  "Book_modify side i q p b =
     (case side of
        Buy \<Rightarrow> modify_levels Buy i q p b
      | Sell \<Rightarrow> modify_levels Sell i q p b
      | Side.Invalid \<Rightarrow> b)"

definition Book_clear :: "Book \<Rightarrow> Book" where
  "Book_clear b = b\<lparr>buy_levels := [], sell_levels := [], orders_by_id := Map.empty\<rparr>"

subsection \<open>Matching\<close>

text \<open>
  The inner loop of the \<^verbatim>\<open>match\<close> template over the orders of one level. The third
  component of the result tells whether the loop returned because the leaves quantity
  reached zero, which ends the walk over the levels as well.
\<close>

fun match_orders ::
  "OrderID \<Rightarrow> Price \<Rightarrow> Price \<Rightarrow> Order list \<Rightarrow> Qty \<Rightarrow> Trade list \<Rightarrow> Qty \<times> Trade list \<times> bool"
where
  "match_orders i p lp [] leaves trades = (leaves, trades, False)"
| "match_orders i p lp (ord # os) leaves trades =
     (if i = order_id ord then match_orders i p lp os leaves trades
      else
        let matched_qty = min leaves (qty ord);
            trades' = trades @
              [\<lparr>passive_price = lp, passive_order = ord,
                aggressive_price = p, aggressive_order = new_Order i matched_qty\<rparr>];
            leaves' = leaves - matched_qty
        in if leaves' = 0 then (leaves', trades', True)
           else match_orders i p lp os leaves' trades')"

fun match_levels ::
  "(Price \<Rightarrow> Price \<Rightarrow> bool) \<Rightarrow> OrderID \<Rightarrow> Price \<Rightarrow> Level list \<Rightarrow> Qty \<Rightarrow> Trade list
     \<Rightarrow> Qty \<times> Trade list"
where
  "match_levels match_predicate i p [] leaves trades = (leaves, trades)"
| "match_levels match_predicate i p (L # Ls) leaves trades =
     (if \<not> match_predicate p (price L) then (leaves, trades)
      else
        case match_orders i p (price L) (orders L) leaves trades of
          (leaves', trades', True) \<Rightarrow> (leaves', trades')
        | (leaves', trades', False) \<Rightarrow> match_levels match_predicate i p Ls leaves' trades')"

text \<open>
  The walk of \<^verbatim>\<open>Book::match\<close>: a buy walks the sell levels in reverse iteration order
  (\<^verbatim>\<open>crbegin\<close> to \<^verbatim>\<open>crend\<close>), a sell walks the buy levels in iteration order.
\<close>

definition match_walk ::
  "Side \<Rightarrow> OrderID \<Rightarrow> Qty \<Rightarrow> Price \<Rightarrow> Book \<Rightarrow> Trade list \<Rightarrow> Qty \<times> Trade list" where
  "match_walk side i q p b trades =
     (case side of
        Buy \<Rightarrow> match_levels (\<lambda>order_price level_price. order_price \<ge> level_price)
                 i p (rev (sell_levels b)) q trades
      | Sell \<Rightarrow> match_levels (\<lambda>order_price level_price. order_price \<le> level_price)
                 i p (buy_levels b) q trades
      | Side.Invalid \<Rightarrow> (q, trades))"

fun fill_orders :: "Trade list \<Rightarrow> Book \<Rightarrow> Book \<times> Trade list" where
  "fill_orders [] b = (b, [])"
| "fill_orders (trade # trades) b =
     (let leaves_qty = qty (passive_order trade) - qty (aggressive_order trade);
          (b', trade') =
             (if leaves_qty = 0 then (Book_cancel (order_id (passive_order trade)) b, trade)
              else
                ((case level (passive_order trade) of
                    None \<Rightarrow> b
                  | Some (s, lp) \<Rightarrow>
                      map_levels s
                        (update_level lp
                           (Level_modify_qty (order_id (passive_order trade)) leaves_qty)) b),
                 trade\<lparr>passive_order :=
                   (passive_order trade)\<lparr>qty := qty (aggressive_order trade)\<rparr>\<rparr>));
          (b'', trades') = fill_orders trades b'
      in (b'', trade' # trades'))"

definition Book_match ::
  "Side \<Rightarrow> OrderID \<Rightarrow> Qty \<Rightarrow> Price \<Rightarrow> Book \<Rightarrow> Trade list \<Rightarrow> Qty \<times> Book \<times> Trade list" where
  "Book_match side i q p b trades =
     (let (leaves_qty, trades') = match_walk side i q p b trades;
          (b', trades'') = fill_orders trades' b
      in (leaves_qty, b', trades''))"

section \<open>Matching engine\<close>

text \<open>
  The message structures carry the same fields in the order of their declarations. The
  engine owns the book and the buffer of the trades of the last command.
\<close>

datatype Message =
    BuyOrder TIF Price Qty OrderID
  | SellOrder TIF Price Qty OrderID
  | CancelOrder OrderID
  | ModifyOrder OrderID Side Price Qty
  | PrintBook
  | ClearBook

record MatchingEngine =
  book :: Book
  trades :: "Trade list"

definition handle_add ::
  "Side \<Rightarrow> TIF \<Rightarrow> Price \<Rightarrow> Qty \<Rightarrow> OrderID \<Rightarrow> MatchingEngine \<Rightarrow> MatchingEngine" where
  "handle_add side t p q i e =
     (let (leaves_qty, b, ts) = Book_match side i q p (book e) []
      in if leaves_qty = 0 then \<lparr>book = b, trades = ts\<rparr>
         else case t of
                GFD \<Rightarrow> \<lparr>book = Book_add side i leaves_qty p b, trades = ts\<rparr>
              | IOC \<Rightarrow> \<lparr>book = b, trades = ts\<rparr>
              | TIF.Invalid \<Rightarrow> \<lparr>book = b, trades = ts\<rparr>)"

definition handle_modify ::
  "OrderID \<Rightarrow> Side \<Rightarrow> Price \<Rightarrow> Qty \<Rightarrow> MatchingEngine \<Rightarrow> MatchingEngine" where
  "handle_modify i side p q e =
     (let (leaves_qty, b, ts) = Book_match side i q p (book e) []
      in if leaves_qty = 0 then \<lparr>book = Book_cancel i b, trades = ts\<rparr>
         else \<lparr>book = Book_modify side i leaves_qty p b, trades = ts\<rparr>)"

text \<open>
  The overloads of \<^verbatim>\<open>MatchingEngine::handle\<close>. There is none for \<^verbatim>\<open>PrintBook\<close>: the
  command processor writes the book itself and leaves the engine as it is.
\<close>

fun handle :: "Message \<Rightarrow> MatchingEngine \<Rightarrow> MatchingEngine" where
  "handle (BuyOrder t p q i) e = handle_add Buy t p q i e"
| "handle (SellOrder t p q i) e = handle_add Sell t p q i e"
| "handle (CancelOrder i) e = e\<lparr>book := Book_cancel i (book e)\<rparr>"
| "handle (ModifyOrder i side p q) e = handle_modify i side p q e"
| "handle ClearBook e = e\<lparr>book := Book_clear (book e)\<rparr>"
| "handle PrintBook e = e"

definition new_MatchingEngine :: MatchingEngine where
  "new_MatchingEngine = \<lparr>book = empty_Book, trades = []\<rparr>"

text \<open>The books the engine can hold: the empty book, and the book after any message.\<close>

inductive reachable :: "Book \<Rightarrow> bool" where
  reachable_empty: "reachable empty_Book"
| reachable_handle: "reachable b \<Longrightarrow> reachable (book (handle msg \<lparr>book = b, trades = ts\<rparr>))"

section \<open>Output\<close>

function show_nat :: "nat \<Rightarrow> string" where
  "show_nat n =
     (if n < 10 then [char_of (48 + n)]
      else show_nat (n div 10) @ [char_of (48 + n mod 10)])"
  by pat_completeness auto
termination
  by (relation "measure id") auto

declare show_nat.simps [simp del]

definition show_u64 :: "64 word \<Rightarrow> string" where
  "show_u64 w = show_nat (unat w)"

definition show_Level :: "Level \<Rightarrow> string" where
  "show_Level L = show_u64 (price L) @ '' '' @ show_u64 (level_qty L)"

definition show_Trade :: "Trade \<Rightarrow> string" where
  "show_Trade t =
     ''TRADE '' @ order_id (passive_order t)
       @ '' '' @ show_u64 (passive_price t)
       @ '' '' @ show_u64 (qty (passive_order t))
       @ '' '' @ order_id (aggressive_order t)
       @ '' '' @ show_u64 (aggressive_price t)
       @ '' '' @ show_u64 (qty (aggressive_order t))"

definition newline :: string where
  "newline = [CHR 0x0A]"

definition show_Trades :: "Trade list \<Rightarrow> string" where
  "show_Trades ts = concat (map (\<lambda>t. show_Trade t @ newline) ts)"

text \<open>
  \<^verbatim>\<open>operator<<(std::ostream &, Book const &)\<close>: both loops run over the level set in its
  iteration order.
\<close>

definition show_Book :: "Book \<Rightarrow> string" where
  "show_Book b =
     ''SELL:'' @ newline @ concat (map (\<lambda>L. show_Level L @ newline) (sell_levels b))
     @ ''BUY:'' @ newline @ concat (map (\<lambda>L. show_Level L @ newline) (buy_levels b))"

section \<open>Command processor\<close>

text \<open>
  The input stream as the extraction operators use it: the characters not yet read, and
  whether the stream has failed (\<^verbatim>\<open>failbit\<close>). The end of the input is the end of
  \<open>buf\<close>. Every formatted extraction starts with the stream's sentry: it fails on a
  stream that has failed, skips white space, and fails, setting \<^verbatim>\<open>failbit\<close>, when it
  meets the end of the input.
\<close>

record istream =
  buf :: string
  failed :: bool

definition isspace :: "char \<Rightarrow> bool" where
  "isspace c \<longleftrightarrow> c = CHR '' '' \<or> (9 \<le> (of_char c :: int) \<and> (of_char c :: int) \<le> 13)"

definition isdigit :: "char \<Rightarrow> bool" where
  "isdigit c \<longleftrightarrow> 48 \<le> (of_char c :: int) \<and> (of_char c :: int) \<le> 57"

definition sentry :: "istream \<Rightarrow> bool \<times> istream" where
  "sentry ist =
     (if failed ist then (False, ist)
      else if dropWhile isspace (buf ist) = [] then (False, \<lparr>buf = [], failed = True\<rparr>)
      else (True, \<lparr>buf = dropWhile isspace (buf ist), failed = False\<rparr>))"

text \<open>
  \<^verbatim>\<open>is >> str\<close> for a \<^verbatim>\<open>std::string\<close>: the characters up to the next white space. The
  string keeps its value \<open>str\<close> when the sentry fails.
\<close>

definition read_string :: "string \<Rightarrow> istream \<Rightarrow> string \<times> istream" where
  "read_string str ist =
     (let (ok, ist') = sentry ist
      in if \<not> ok then (str, ist')
         else (takeWhile (\<lambda>c. \<not> isspace c) (buf ist'),
               ist'\<lparr>buf := dropWhile (\<lambda>c. \<not> isspace c) (buf ist')\<rparr>))"

text \<open>
  \<^verbatim>\<open>is >> value\<close> for a \<^verbatim>\<open>std::uint64_t\<close> that was initialised to zero, as in the
  extraction operators of \<^verbatim>\<open>Price\<close> and \<^verbatim>\<open>Qty\<close>: an optional sign and decimal digits.
  Without a digit the value is zero and the stream fails; a number that does not fit
  gives the greatest value and the stream fails; a minus sign negates the value in
  64-bit arithmetic.
\<close>

definition digits_value :: "string \<Rightarrow> int" where
  "digits_value ds = foldl (\<lambda>n c. 10 * n + (of_char c - 48)) 0 ds"

definition read_u64 :: "istream \<Rightarrow> 64 word \<times> istream" where
  "read_u64 ist =
     (let (ok, ist') = sentry ist
      in if \<not> ok then (0, ist')
         else
           let negative = (hd (buf ist') = CHR ''-'');
               s = (if hd (buf ist') = CHR ''-'' \<or> hd (buf ist') = CHR ''+''
                    then tl (buf ist') else buf ist');
               ds = takeWhile isdigit s;
               rest = dropWhile isdigit s
           in if ds = [] then (0, \<lparr>buf = rest, failed = True\<rparr>)
              else if 2 ^ 64 \<le> digits_value ds then (- 1, \<lparr>buf = rest, failed = True\<rparr>)
              else (if negative then - word_of_int (digits_value ds)
                    else word_of_int (digits_value ds),
                    \<lparr>buf = rest, failed = False\<rparr>))"

text \<open>
  The state of a run of the command processor: the engine, the output written so far,
  the input stream, and the two \<^verbatim>\<open>thread_local static\<close> strings of the extraction
  operators of \<^verbatim>\<open>TIF\<close> and \<^verbatim>\<open>Side\<close>, which keep the last token read. They start as
  \<^verbatim>\<open>std::string{3, '\0'}\<close> and \<^verbatim>\<open>std::string{4, '\0'}\<close>, the strings of these two
  characters.
\<close>

record CommandProcessor =
  matching_engine :: MatchingEngine
  ostr :: string
  istr :: istream
  tif_str :: string
  side_str :: string

definition new_CommandProcessor :: "string \<Rightarrow> CommandProcessor" where
  "new_CommandProcessor inp =
     \<lparr>matching_engine = new_MatchingEngine, ostr = [],
      istr = \<lparr>buf = inp, failed = False\<rparr>,
      tif_str = [CHR 0x03, CHR 0x00], side_str = [CHR 0x04, CHR 0x00]\<rparr>"

definition read_TIF :: "CommandProcessor \<Rightarrow> TIF \<times> CommandProcessor" where
  "read_TIF s =
     (let (str, ist) = read_string (tif_str s) (istr s)
      in (if str = ''GFD'' then GFD else if str = ''IOC'' then IOC else TIF.Invalid,
          s\<lparr>istr := ist, tif_str := str\<rparr>))"

definition read_Side :: "CommandProcessor \<Rightarrow> Side \<times> CommandProcessor" where
  "read_Side s =
     (let (str, ist) = read_string (side_str s) (istr s)
      in (if str = ''BUY'' then Buy else if str = ''SELL'' then Sell else Side.Invalid,
          s\<lparr>istr := ist, side_str := str\<rparr>))"

definition read_Price :: "CommandProcessor \<Rightarrow> Price \<times> CommandProcessor" where
  "read_Price s = (let (v, ist) = read_u64 (istr s) in (v, s\<lparr>istr := ist\<rparr>))"

definition read_Qty :: "CommandProcessor \<Rightarrow> Qty \<times> CommandProcessor" where
  "read_Qty s = (let (v, ist) = read_u64 (istr s) in (v, s\<lparr>istr := ist\<rparr>))"

definition read_OrderID :: "CommandProcessor \<Rightarrow> OrderID \<times> CommandProcessor" where
  "read_OrderID s = (let (v, ist) = read_string [] (istr s) in (v, s\<lparr>istr := ist\<rparr>))"

text \<open>The extraction operators of the messages read the fields one after the other.\<close>

definition read_BuyOrder :: "CommandProcessor \<Rightarrow> Message \<times> CommandProcessor" where
  "read_BuyOrder s =
     (let (t, s1) = read_TIF s;
          (p, s2) = read_Price s1;
          (q, s3) = read_Qty s2;
          (i, s4) = read_OrderID s3
      in (BuyOrder t p q i, s4))"

definition read_SellOrder :: "CommandProcessor \<Rightarrow> Message \<times> CommandProcessor" where
  "read_SellOrder s =
     (let (t, s1) = read_TIF s;
          (p, s2) = read_Price s1;
          (q, s3) = read_Qty s2;
          (i, s4) = read_OrderID s3
      in (SellOrder t p q i, s4))"

definition read_CancelOrder :: "CommandProcessor \<Rightarrow> Message \<times> CommandProcessor" where
  "read_CancelOrder s = (let (i, s1) = read_OrderID s in (CancelOrder i, s1))"

definition read_ModifyOrder :: "CommandProcessor \<Rightarrow> Message \<times> CommandProcessor" where
  "read_ModifyOrder s =
     (let (i, s1) = read_OrderID s;
          (side, s2) = read_Side s1;
          (p, s3) = read_Price s2;
          (q, s4) = read_Qty s3
      in (ModifyOrder i side p q, s4))"

fun is_invalid :: "Message \<Rightarrow> bool" where
  "is_invalid (BuyOrder t p q i) \<longleftrightarrow> t = TIF.Invalid \<or> p = 0 \<or> q = 0 \<or> i = []"
| "is_invalid (SellOrder t p q i) \<longleftrightarrow> t = TIF.Invalid \<or> p = 0 \<or> q = 0 \<or> i = []"
| "is_invalid (CancelOrder i) \<longleftrightarrow> i = []"
| "is_invalid (ModifyOrder i side p q) \<longleftrightarrow> i = [] \<or> side = Side.Invalid \<or> p = 0 \<or> q = 0"
| "is_invalid PrintBook \<longleftrightarrow> False"
| "is_invalid ClearBook \<longleftrightarrow> False"

text \<open>
  The handlers of \<^verbatim>\<open>CommandProcessor\<close>: the engine handles the message, and the trades
  of a buy, a sell or a modify are written out; \<^verbatim>\<open>PRINT\<close> writes the book.
\<close>

fun CommandProcessor_handle :: "Message \<Rightarrow> CommandProcessor \<Rightarrow> CommandProcessor" where
  "CommandProcessor_handle (BuyOrder t p q i) s =
     (let e = handle (BuyOrder t p q i) (matching_engine s)
      in s\<lparr>matching_engine := e, ostr := ostr s @ show_Trades (trades e)\<rparr>)"
| "CommandProcessor_handle (SellOrder t p q i) s =
     (let e = handle (SellOrder t p q i) (matching_engine s)
      in s\<lparr>matching_engine := e, ostr := ostr s @ show_Trades (trades e)\<rparr>)"
| "CommandProcessor_handle (CancelOrder i) s =
     s\<lparr>matching_engine := handle (CancelOrder i) (matching_engine s)\<rparr>"
| "CommandProcessor_handle (ModifyOrder i side p q) s =
     (let e = handle (ModifyOrder i side p q) (matching_engine s)
      in s\<lparr>matching_engine := e, ostr := ostr s @ show_Trades (trades e)\<rparr>)"
| "CommandProcessor_handle PrintBook s =
     s\<lparr>ostr := ostr s @ show_Book (book (matching_engine s))\<rparr>"
| "CommandProcessor_handle ClearBook s =
     s\<lparr>matching_engine := handle ClearBook (matching_engine s)\<rparr>"

text \<open>
  The template \<^verbatim>\<open>handle<Msg_T>\<close>: the message is read, and an invalid message raises an
  exception, which \<^verbatim>\<open>run\<close> catches: the message is not handled. The dispatch
  \<^verbatim>\<open>handle(cmd, is)\<close> raises the exception for a command that has no handler.
\<close>

definition handle_msg :: "Message \<times> CommandProcessor \<Rightarrow> CommandProcessor" where
  "handle_msg r =
     (if is_invalid (fst r) then snd r else CommandProcessor_handle (fst r) (snd r))"

definition handle_cmd :: "string \<Rightarrow> CommandProcessor \<Rightarrow> CommandProcessor" where
  "handle_cmd cmd s =
     (if cmd = ''BUY'' then handle_msg (read_BuyOrder s)
      else if cmd = ''SELL'' then handle_msg (read_SellOrder s)
      else if cmd = ''CANCEL'' then handle_msg (read_CancelOrder s)
      else if cmd = ''MODIFY'' then handle_msg (read_ModifyOrder s)
      else if cmd = ''PRINT'' then handle_msg (PrintBook, s)
      else if cmd = ''CLEAR'' then handle_msg (ClearBook, s)
      else s)"

text \<open>
  The loop of \<^verbatim>\<open>run\<close>: \<^verbatim>\<open>while (is >> cmd)\<close> ends when the extraction of the command
  leaves the stream failed. Every round reads at least one character, so the loop ends.
\<close>

function run :: "CommandProcessor \<Rightarrow> CommandProcessor" where
  "run s =
     (let (cmd, ist) = read_string [] (istr s)
      in if failed ist then s\<lparr>istr := ist\<rparr>
         else run (handle_cmd cmd (s\<lparr>istr := ist\<rparr>)))"
  by pat_completeness auto
termination
proof (relation "measure (\<lambda>s. length (buf (istr s)))")
  show "wf (measure (\<lambda>s. length (buf (istr s))))"
    by simp
next
  fix s :: CommandProcessor and x :: "string \<times> istream" and cmd :: string and ist :: istream
  assume x: "x = read_string [] (istr s)" and c: "(cmd, ist) = x" and nf: "\<not> failed ist"
  have sen: "length (buf (snd (sentry i))) \<le> length (buf i)" for i
    by (simp add: sentry_def length_dropWhile_le)
  have rs: "length (buf (snd (read_string str i))) \<le> length (buf i)" for str i
  proof -
    have "length (dropWhile (\<lambda>c. \<not> isspace c) (buf (snd (sentry i))))
        \<le> length (buf (snd (sentry i)))"
      by (rule length_dropWhile_le)
    then show ?thesis
      using sen [of i] by (simp add: read_string_def split_beta)
  qed
  have ru: "length (buf (snd (read_u64 i))) \<le> length (buf i)" for i
  proof -
    let ?b = "buf (snd (sentry i))"
    have "length (dropWhile isdigit ?b) \<le> length ?b"
      and "length (dropWhile isdigit (tl ?b)) \<le> length ?b"
      using length_dropWhile_le [of isdigit ?b] length_dropWhile_le [of isdigit "tl ?b"]
      by simp_all
    then show ?thesis
      using sen [of i] by (simp add: read_u64_def split_beta Let_def)
  qed
  have tif: "length (buf (istr (snd (read_TIF t)))) \<le> length (buf (istr t))" for t
    using rs [of "tif_str t" "istr t"] by (simp add: read_TIF_def split_beta)
  have side: "length (buf (istr (snd (read_Side t)))) \<le> length (buf (istr t))" for t
    using rs [of "side_str t" "istr t"] by (simp add: read_Side_def split_beta)
  have price: "length (buf (istr (snd (read_Price t)))) \<le> length (buf (istr t))" for t
    using ru [of "istr t"] by (simp add: read_Price_def split_beta)
  have qty: "length (buf (istr (snd (read_Qty t)))) \<le> length (buf (istr t))" for t
    using ru [of "istr t"] by (simp add: read_Qty_def split_beta)
  have oid: "length (buf (istr (snd (read_OrderID t)))) \<le> length (buf (istr t))" for t
    using rs [of "[]" "istr t"] by (simp add: read_OrderID_def split_beta)
  have buy: "length (buf (istr (snd (read_BuyOrder t)))) \<le> length (buf (istr t))" for t
    unfolding read_BuyOrder_def split_beta Let_def snd_conv
    by (rule order_trans [OF oid], rule order_trans [OF qty], rule order_trans [OF price],
        rule tif)
  have sell: "length (buf (istr (snd (read_SellOrder t)))) \<le> length (buf (istr t))" for t
    unfolding read_SellOrder_def split_beta Let_def snd_conv
    by (rule order_trans [OF oid], rule order_trans [OF qty], rule order_trans [OF price],
        rule tif)
  have cancel: "length (buf (istr (snd (read_CancelOrder t)))) \<le> length (buf (istr t))" for t
    unfolding read_CancelOrder_def split_beta Let_def snd_conv
    by (rule oid)
  have modify: "length (buf (istr (snd (read_ModifyOrder t)))) \<le> length (buf (istr t))" for t
    unfolding read_ModifyOrder_def split_beta Let_def snd_conv
    by (rule order_trans [OF qty], rule order_trans [OF price], rule order_trans [OF side],
        rule oid)
  have cph: "istr (CommandProcessor_handle m t) = istr t" for m t
    by (cases m) (simp_all add: Let_def)
  have hm: "istr (handle_msg r) = istr (snd r)" for r
    by (simp add: handle_msg_def cph)
  have hc: "length (buf (istr (handle_cmd k t))) \<le> length (buf (istr t))" for k t
    using buy [of t] sell [of t] cancel [of t] modify [of t]
    by (simp add: handle_cmd_def hm)
  have ok: "fst (sentry (istr s))"
  proof (rule ccontr)
    assume "\<not> fst (sentry (istr s))"
    then have "failed (snd (sentry (istr s)))"
      by (simp add: sentry_def split: if_splits)
    then show False
      using x c nf \<open>\<not> fst (sentry (istr s))\<close> by (simp add: read_string_def split_beta)
  qed
  then have d: "\<not> failed (istr s)" "dropWhile isspace (buf (istr s)) \<noteq> []"
    by (auto simp: sentry_def split: if_splits)
  then have sn: "snd (sentry (istr s))
      = \<lparr>buf = dropWhile isspace (buf (istr s)), failed = False\<rparr>"
    by (simp add: sentry_def)
  have ne: "buf (snd (sentry (istr s))) \<noteq> []"
    using d sn by simp
  have hd: "\<not> isspace (hd (buf (snd (sentry (istr s)))))"
    using hd_dropWhile [OF d(2)] sn by simp
  have "length (dropWhile (\<lambda>c. \<not> isspace c) (buf (snd (sentry (istr s)))))
      < length (buf (snd (sentry (istr s))))"
    using ne hd by (cases "buf (snd (sentry (istr s)))") (simp_all add: le_imp_less_Suc length_dropWhile_le)
  moreover have "ist = (snd (sentry (istr s)))
      \<lparr>buf := dropWhile (\<lambda>c. \<not> isspace c) (buf (snd (sentry (istr s))))\<rparr>"
    using x c ok by (simp add: read_string_def split_beta)
  ultimately have "length (buf ist) < length (buf (istr s))"
    using sen [of "istr s"] by simp
  then show "(handle_cmd cmd (s\<lparr>istr := ist\<rparr>), s) \<in> measure (\<lambda>s. length (buf (istr s)))"
    using hc [of cmd "s\<lparr>istr := ist\<rparr>"] by simp
qed

declare run.simps [simp del]

section \<open>Invariants of the book\<close>

text \<open>
  A level of a side is well formed when its queue is not empty, no identifier occurs twice
  in it, every order points back to the level and has a quantity that is not zero, and the
  cached quantity is the sum of the quantities of its orders (in 64-bit arithmetic).
\<close>

definition Level_ok :: "Side \<Rightarrow> Level \<Rightarrow> bool" where
  "Level_ok s L \<longleftrightarrow>
     orders L \<noteq> [] \<and> distinct (map order_id (orders L))
     \<and> (\<forall>ord \<in> set (orders L). level ord = Some (s, price L) \<and> qty ord \<noteq> 0)
     \<and> level_qty L = sum_list (map qty (orders L))"

definition Levels_ok :: "Side \<Rightarrow> Level list \<Rightarrow> bool" where
  "Levels_ok s Ls \<longleftrightarrow> sorted_wrt (>) (map price Ls) \<and> (\<forall>L \<in> set Ls. Level_ok s L)"

text \<open>The level at price \<open>p\<close> of a level set holds an order with identifier \<open>i\<close>.\<close>

definition holds :: "Level list \<Rightarrow> Price \<Rightarrow> OrderID \<Rightarrow> bool" where
  "holds Ls p i \<longleftrightarrow> (\<exists>L \<in> set Ls. price L = p \<and> i \<in> order_id ` set (orders L))"

definition index_ok :: "Book \<Rightarrow> bool" where
  "index_ok b \<longleftrightarrow>
     (\<forall>i s p. orders_by_id b i = Some (s, p) \<longleftrightarrow> holds (levels_of s b) p i)"

definition uncrossed :: "Book \<Rightarrow> bool" where
  "uncrossed b \<longleftrightarrow>
     (\<forall>B \<in> set (buy_levels b). \<forall>S \<in> set (sell_levels b). price B < price S)"

definition struct_ok :: "Book \<Rightarrow> bool" where
  "struct_ok b \<longleftrightarrow> (\<forall>s. Levels_ok s (levels_of s b)) \<and> index_ok b"

definition Book_ok :: "Book \<Rightarrow> bool" where
  "Book_ok b \<longleftrightarrow> struct_ok b \<and> uncrossed b"

text \<open>
  The best prices as the matching walk meets them: the first buy level and the last sell
  level in iteration order.
\<close>

definition best_buy :: "Book \<Rightarrow> Price option" where
  "best_buy b = (case buy_levels b of [] \<Rightarrow> None | L # Ls \<Rightarrow> Some (price L))"

definition best_sell :: "Book \<Rightarrow> Price option" where
  "best_sell b = (case rev (sell_levels b) of [] \<Rightarrow> None | L # Ls \<Rightarrow> Some (price L))"

section \<open>Specification of the matching walk\<close>

text \<open>
  The notions of the specification, stated on their own and compared with the code below.
  An aggressive order of side \<open>side\<close> at price \<open>p\<close> is compatible with a level when a buy
  price is at least, and a sell price at most, the level's price. The opposite side is
  walked from its best price outward: the sell levels by ascending price for a buy, the
  buy levels by descending price for a sell.
\<close>

definition compatible :: "Side \<Rightarrow> Price \<Rightarrow> Price \<Rightarrow> bool" where
  "compatible side order_price level_price =
     (case side of
        Buy \<Rightarrow> order_price \<ge> level_price
      | Sell \<Rightarrow> order_price \<le> level_price
      | Side.Invalid \<Rightarrow> False)"

definition opposite :: "Side \<Rightarrow> Side" where
  "opposite side = (case side of Buy \<Rightarrow> Sell | Sell \<Rightarrow> Buy | Side.Invalid \<Rightarrow> Side.Invalid)"

definition best_first :: "Side \<Rightarrow> Book \<Rightarrow> Level list" where
  "best_first side b =
     (case side of
        Buy \<Rightarrow> rev (sell_levels b)
      | Sell \<Rightarrow> buy_levels b
      | Side.Invalid \<Rightarrow> [])"

text \<open>
  The resting orders an aggressive order can trade with, each with the price of its
  level, in price priority and then time priority: the levels best first up to the first
  one that is not compatible, the orders of a level first in first out, the orders with
  the aggressive identifier left out.
\<close>

definition level_candidates :: "OrderID \<Rightarrow> Level \<Rightarrow> (Price \<times> Order) list" where
  "level_candidates i L =
     map (\<lambda>ord. (price L, ord)) (filter (\<lambda>ord. order_id ord \<noteq> i) (orders L))"

definition candidates :: "Side \<Rightarrow> OrderID \<Rightarrow> Price \<Rightarrow> Book \<Rightarrow> (Price \<times> Order) list" where
  "candidates side i p b =
     concat (map (level_candidates i)
       (takeWhile (\<lambda>L. compatible side p (price L)) (best_first side b)))"

definition make_Trade :: "OrderID \<Rightarrow> Price \<Rightarrow> Qty \<Rightarrow> Price \<times> Order \<Rightarrow> Trade" where
  "make_Trade i p fill c =
     \<lparr>passive_price = fst c, passive_order = snd c,
      aggressive_price = p, aggressive_order = new_Order i fill\<rparr>"

text \<open>
  Filling a list of candidates in order: each takes the minimum of the leaves quantity and
  its own quantity, until the leaves quantity is zero or the candidates are exhausted.
\<close>

fun fill_candidates :: "OrderID \<Rightarrow> Price \<Rightarrow> Qty \<Rightarrow> (Price \<times> Order) list \<Rightarrow> Trade list \<times> Qty" where
  "fill_candidates i p leaves [] = ([], leaves)"
| "fill_candidates i p leaves (c # cs) =
     (let fill = min leaves (qty (snd c))
      in if leaves - fill = 0 then ([make_Trade i p fill c], 0)
         else (make_Trade i p fill c # fst (fill_candidates i p (leaves - fill) cs),
               snd (fill_candidates i p (leaves - fill) cs)))"

text \<open>
  A trade consumed the passive order in full when nothing of the passive quantity is left
  after the fill.
\<close>

definition fully_filled :: "Trade \<Rightarrow> bool" where
  "fully_filled t \<longleftrightarrow> qty (passive_order t) - qty (aggressive_order t) = 0"

text \<open>
  The effect of one trade on a level, in the words of the specification: at the trade's
  price, a passive order that was consumed in full is removed from the queue; any other
  has its quantity set to its quantity less the fill, where it stands in the queue. The
  aggregate quantity of the level is the sum over the queue.
\<close>

definition fill_level :: "Trade \<Rightarrow> Level \<Rightarrow> Level" where
  "fill_level t L =
     (if price L \<noteq> passive_price t then L
      else
        let os =
          (if fully_filled t
           then filter (\<lambda>ord. order_id ord \<noteq> order_id (passive_order t)) (orders L)
           else map (\<lambda>ord. if order_id ord = order_id (passive_order t)
                            then ord\<lparr>qty := qty (passive_order t) - qty (aggressive_order t)\<rparr>
                            else ord) (orders L))
        in L\<lparr>orders := os, level_qty := sum_list (map qty os)\<rparr>)"

text \<open>
  The orders with identifier \<open>i\<close> that rest in a level set, each with the price of its
  level, in iteration order.
\<close>

definition resting :: "OrderID \<Rightarrow> Level list \<Rightarrow> (Price \<times> Order) list" where
  "resting i Ls =
     concat (map (\<lambda>L. map (\<lambda>ord. (price L, ord)) (filter (\<lambda>ord. order_id ord = i) (orders L))) Ls)"

text \<open>
  The trade as it is written out: the quantity of the passive order is set to the fill.
\<close>

definition normalized :: "Trade \<Rightarrow> Trade" where
  "normalized t = t\<lparr>passive_order := (passive_order t)\<lparr>qty := qty (aggressive_order t)\<rparr>\<rparr>"

text \<open>
  The queue of the level at price \<open>p\<close> of a level set, empty when there is no such level.
\<close>

definition orders_at :: "Price \<Rightarrow> Level list \<Rightarrow> Order list" where
  "orders_at p Ls = (case find_level p Ls of None \<Rightarrow> [] | Some L \<Rightarrow> orders L)"

section \<open>Specification of the decoder\<close>

text \<open>
  The words of the input: a token is a non-empty run of characters that are not white
  space, a separator a non-empty run of white space. A number is a run of decimal
  digits; a token is not a number when it starts with neither a digit nor a sign. The
  verbs are the commands that have a handler.
\<close>

definition token :: "string \<Rightarrow> bool" where
  "token w \<longleftrightarrow> w \<noteq> [] \<and> list_all (\<lambda>c. \<not> isspace c) w"

definition spaces :: "string \<Rightarrow> bool" where
  "spaces ws \<longleftrightarrow> ws \<noteq> [] \<and> list_all isspace ws"

definition number :: "string \<Rightarrow> bool" where
  "number w \<longleftrightarrow> w \<noteq> [] \<and> list_all isdigit w"

definition not_number :: "string \<Rightarrow> bool" where
  "not_number w \<longleftrightarrow>
     token w \<and> \<not> isdigit (hd w) \<and> hd w \<noteq> CHR ''+'' \<and> hd w \<noteq> CHR ''-''"

definition verbs :: "string list" where
  "verbs = [''BUY'', ''SELL'', ''CANCEL'', ''MODIFY'', ''PRINT'', ''CLEAR'']"

section \<open>Example runs\<close>

text \<open>The engine after a list of messages, started on the empty book.\<close>

definition run_messages :: "Message list \<Rightarrow> MatchingEngine" where
  "run_messages ms = fold handle ms new_MatchingEngine"

text \<open>Two resting buy orders at different prices, as in the unit tests.\<close>

definition two_bids :: Book where
  "two_bids = book (run_messages
     [BuyOrder GFD 1000 10 ''order1'', BuyOrder GFD 1010 10 ''order2''])"

text \<open>Two resting buy orders at one price.\<close>

definition queued_bids :: Book where
  "queued_bids = book (run_messages
     [BuyOrder GFD 1000 10 ''order1'', BuyOrder GFD 1000 10 ''order2''])"

text \<open>Two resting sell orders at different prices.\<close>

definition two_asks :: Book where
  "two_asks = book (run_messages
     [SellOrder GFD 1100 30 ''order5'', SellOrder GFD 1200 50 ''order6''])"

text \<open>One resting buy order.\<close>

definition one_bid :: Book where
  "one_bid = book (run_messages [BuyOrder GFD 900 5 ''order1''])"

definition resting_bid :: Book where
  "resting_bid = book (run_messages [BuyOrder GFD 1000 10 ''order1''])"

text \<open>The input of the unit test with a price and a quantity that are not numbers.\<close>

definition invalid_price_and_qty :: string where
  "invalid_price_and_qty =
     ''BUY GFD a 5 order1'' @ newline @ ''BUY GFD 900 b order1'' @ newline
       @ ''PRINT'' @ newline"

section \<open>Lemmas\<close>

subsection \<open>Level sets\<close>

lemma sorted_gt_distinct: "sorted_wrt (>) (xs :: Price list) \<Longrightarrow> distinct xs"
  by (induction xs) auto

lemma new_Level_simps [simp]:
  "price (new_Level p) = p" "orders (new_Level p) = []" "level_qty (new_Level p) = 0"
  by (simp_all add: new_Level_def)

lemma emplace_prices_set: "price ` set (emplace p Ls) = insert p (price ` set Ls)"
  by (induction Ls) auto

lemma sorted_emplace:
  "sorted_wrt (>) (map price Ls) \<Longrightarrow> sorted_wrt (>) (map price (emplace p Ls))"
proof (induction Ls)
  case Nil
  then show ?case by simp
next
  case (Cons L Ls)
  have "\<forall>x \<in> set (emplace p Ls). price x \<in> insert p (price ` set Ls)"
    using emplace_prices_set [of p Ls] by blast
  with Cons show ?case by (auto simp: not_less)
qed

lemma set_emplace:
  "sorted_wrt (>) (map price Ls) \<Longrightarrow>
   set (emplace p Ls) = (if p \<in> price ` set Ls then set Ls else insert (new_Level p) (set Ls))"
  by (induction Ls) (auto simp: not_less)

lemma find_level_Some:
  "distinct (map price Ls) \<Longrightarrow> find_level p Ls = Some L \<longleftrightarrow> L \<in> set Ls \<and> price L = p"
  unfolding find_level_def by (induction Ls) auto

lemma find_level_None: "find_level p Ls = None \<longleftrightarrow> p \<notin> price ` set Ls"
  unfolding find_level_def by (auto simp: find_None_iff)

lemma prices_update_level:
  "(\<And>L. price (f L) = price L) \<Longrightarrow> map price (update_level p f Ls) = map price Ls"
  unfolding update_level_def by (induction Ls) auto

lemma sorted_erase_level:
  "sorted_wrt (>) (map price Ls) \<Longrightarrow> sorted_wrt (>) (map price (erase_level p Ls))"
  unfolding erase_level_def by (induction Ls) auto

lemma set_erase_level: "set (erase_level p Ls) = {L \<in> set Ls. price L \<noteq> p}"
  unfolding erase_level_def by auto

lemma set_update_level:
  "set (update_level p f Ls) = {L \<in> set Ls. price L \<noteq> p} \<union> f ` {L \<in> set Ls. price L = p}"
  unfolding update_level_def by auto

lemma sorted_erase_if_empty:
  "sorted_wrt (>) (map price Ls) \<Longrightarrow> sorted_wrt (>) (map price (erase_if_empty p Ls))"
  unfolding erase_if_empty_def by (auto split: option.splits simp: sorted_erase_level)

lemma set_erase_if_empty:
  "distinct (map price Ls) \<Longrightarrow>
   set (erase_if_empty p Ls) = {L \<in> set Ls. \<not> (price L = p \<and> orders L = [])}"
  unfolding erase_if_empty_def
  by (auto split: option.splits simp: set_erase_level find_level_Some find_level_None
      dest: inj_on_eq_iff [OF distinct_map [THEN iffD1, THEN conjunct2], rotated 2])

subsection \<open>Orders of a level\<close>

lemma find_order_Some:
  "find_order i os = Some ord \<Longrightarrow> ord \<in> set os \<and> order_id ord = i"
  unfolding find_order_def by (induction os) (auto split: if_splits)

lemma find_order_None: "find_order i os = None \<longleftrightarrow> i \<notin> order_id ` set os"
  unfolding find_order_def by (auto simp: find_None_iff)

lemma find_order_distinct:
  "distinct (map order_id os) \<Longrightarrow> ord \<in> set os \<Longrightarrow> find_order (order_id ord) os = Some ord"
  unfolding find_order_def by (induction os) auto

lemma erase_order_absent: "i \<notin> order_id ` set os \<Longrightarrow> erase_order i os = os"
  unfolding erase_order_def by (induction os) auto

lemma set_qty_absent:
  "i \<notin> order_id ` set os \<Longrightarrow> map (\<lambda>x. if order_id x = i then f x else x) os = os"
  by (induction os) auto

lemma sum_erase_order:
  "distinct (map order_id os) \<Longrightarrow> find_order i os = Some ord \<Longrightarrow>
   sum_list (map qty (erase_order i os)) = sum_list (map qty os) - qty ord"
proof (induction os)
  case Nil
  then show ?case by (simp add: find_order_def)
next
  case (Cons a os)
  show ?case
  proof (cases "order_id a = i")
    case True
    with Cons.prems have "i \<notin> order_id ` set os" "ord = a"
      by (auto simp: find_order_def)
    then show ?thesis
      using True erase_order_absent [of i os] by (simp add: erase_order_def)
  next
    case False
    with Cons show ?thesis by (simp add: find_order_def erase_order_def)
  qed
qed

lemma sum_set_qty:
  "distinct (map order_id os) \<Longrightarrow> find_order i os = Some ord \<Longrightarrow>
   sum_list (map qty (map (\<lambda>x. if order_id x = i then x\<lparr>qty := q\<rparr> else x) os))
     = sum_list (map qty os) - qty ord + q"
proof (induction os)
  case Nil
  then show ?case by (simp add: find_order_def)
next
  case (Cons a os)
  show ?case
  proof (cases "order_id a = i")
    case True
    with Cons.prems have "i \<notin> order_id ` set os" "ord = a"
      by (auto simp: find_order_def)
    then show ?thesis
      using True set_qty_absent [of i os "\<lambda>x. x\<lparr>qty := q\<rparr>"] by simp
  next
    case False
    with Cons show ?thesis by (simp add: find_order_def)
  qed
qed

lemma ids_erase_order: "order_id ` set (erase_order i os) = order_id ` set os - {i}"
  unfolding erase_order_def by auto

lemma distinct_erase_order:
  "distinct (map order_id os) \<Longrightarrow> distinct (map order_id (erase_order i os))"
  unfolding erase_order_def by (simp add: distinct_map_filter)

subsection \<open>Operations of a level\<close>

lemma Level_add_simps [simp]:
  "price (Level_add this i q L) = price L"
  "orders (Level_add this i q L) = orders L @ [\<lparr>order_id = i, qty = q, level = Some this\<rparr>]"
  "level_qty (Level_add this i q L) = level_qty L + q"
  by (simp_all add: Level_add_def new_Order_def)

lemma price_Level_cancel [simp]: "price (Level_cancel i L) = price L"
  by (auto simp: Level_cancel_def split: option.splits)

lemma orders_Level_cancel [simp]: "orders (Level_cancel i L) = erase_order i (orders L)"
  by (auto simp: Level_cancel_def find_order_None erase_order_absent split: option.splits)

lemma Level_modify_qty_simps [simp]:
  "price (Level_modify_qty i q L) = price L"
  "orders (Level_modify_qty i q L) =
     map (\<lambda>x. if order_id x = i then x\<lparr>qty := q\<rparr> else x) (orders L)"
  by (auto simp: Level_modify_qty_def find_order_None set_qty_absent split: option.splits)

lemma ids_Level_modify_qty [simp]:
  "map order_id (orders (Level_modify_qty i q L)) = map order_id (orders L)"
  by (simp add: comp_def if_distrib cong: if_cong)

lemma price_Level_modify [simp]: "price (Level_modify i q L) = price L"
  by (simp add: Level_modify_def Let_def split: option.splits)

lemma ids_Level_modify [simp]:
  "order_id ` set (orders (Level_modify i q L)) = order_id ` set (orders L)"
proof (cases "find_order i (orders (Level_modify_qty i q L))")
  case None
  then show ?thesis
    using arg_cong [OF ids_Level_modify_qty [of i q L], of set]
    by (simp add: Level_modify_def Let_def del: ids_Level_modify_qty Level_modify_qty_simps)
next
  case (Some ord)
  let ?os = "orders (Level_modify_qty i q L)"
  have "ord \<in> set ?os" "order_id ord = i"
    using find_order_Some [OF Some] by auto
  then have "order_id ` set (erase_order i ?os @ [ord]) = order_id ` set ?os"
    by (auto simp: erase_order_def simp del: Level_modify_qty_simps)
  moreover have "order_id ` set ?os = order_id ` set (orders L)"
    using arg_cong [OF ids_Level_modify_qty [of i q L], of set]
    by (simp del: ids_Level_modify_qty Level_modify_qty_simps)
  ultimately show ?thesis
    using Some by (simp add: Level_modify_def Let_def del: Level_modify_qty_simps)
qed

lemma splice_simps [simp]:
  "price (splice_out i q0 L) = price L"
  "orders (splice_out i q0 L) = erase_order i (orders L)"
  "price (splice_in this ord q L) = price L"
  "orders (splice_in this ord q L) = orders L @ [ord\<lparr>level := Some this, qty := q\<rparr>]"
  "level_qty (splice_in this ord q L) = level_qty L + q"
  by (simp_all add: splice_out_def splice_in_def Let_def)

lemma Level_ok_add:
  assumes "orders L = [] \<and> level_qty L = 0 \<or> Level_ok s L"
    and "i \<notin> order_id ` set (orders L)" and "q \<noteq> 0"
  shows "Level_ok s (Level_add (s, price L) i q L)"
  using assms by (auto simp: Level_ok_def)

lemma Level_ok_splice_in:
  assumes "orders L = [] \<and> level_qty L = 0 \<or> Level_ok s L"
    and "order_id ord \<notin> order_id ` set (orders L)" and "q \<noteq> 0"
  shows "Level_ok s (splice_in (s, price L) ord q L)"
  using assms by (auto simp: Level_ok_def)

lemma Level_ok_cancel:
  assumes "Level_ok s L" and "orders (Level_cancel i L) \<noteq> []"
  shows "Level_ok s (Level_cancel i L)"
proof (cases "find_order i (orders L)")
  case None
  then show ?thesis using assms by (simp add: Level_cancel_def)
next
  case (Some ord)
  then have "level_qty (Level_cancel i L) = sum_list (map qty (erase_order i (orders L)))"
    using assms(1) by (simp add: Level_cancel_def Level_ok_def sum_erase_order)
  then show ?thesis
    using assms by (auto simp: Level_ok_def distinct_map_filter erase_order_def)
qed

lemma Level_ok_splice_out:
  assumes "Level_ok s L" and "find_order i (orders L) = Some ord"
    and "erase_order i (orders L) \<noteq> []"
  shows "Level_ok s (splice_out i (qty ord) L)"
proof -
  have "level_qty (splice_out i (qty ord) L) = sum_list (map qty (erase_order i (orders L)))"
    using assms by (simp add: splice_out_def Let_def Level_ok_def sum_erase_order)
  then show ?thesis
    using assms by (auto simp: Level_ok_def distinct_map_filter erase_order_def)
qed

lemma Level_ok_modify_qty:
  assumes "Level_ok s L" and "q \<noteq> 0"
  shows "Level_ok s (Level_modify_qty i q L)"
proof (cases "find_order i (orders L)")
  case None
  then show ?thesis using assms by (simp add: Level_modify_qty_def)
next
  case (Some ord)
  then have "level_qty (Level_modify_qty i q L)
      = sum_list (map qty (orders (Level_modify_qty i q L)))"
    using assms(1) sum_set_qty [of "orders L" i ord q]
    by (simp add: Level_modify_qty_def Level_ok_def)
  moreover have "distinct (map order_id (orders (Level_modify_qty i q L)))"
    using assms(1) by (simp only: ids_Level_modify_qty Level_ok_def)
  ultimately show ?thesis
    using assms by (auto simp: Level_ok_def)
qed

lemma Level_ok_modify:
  assumes "Level_ok s L" and "q \<noteq> 0"
  shows "Level_ok s (Level_modify i q L)"
proof -
  let ?L' = "Level_modify_qty i q L"
  have ok': "Level_ok s ?L'" using assms by (rule Level_ok_modify_qty)
  show ?thesis
  proof (cases "find_order i (orders ?L')")
    case None
    then show ?thesis using ok' by (simp add: Level_modify_def Let_def)
  next
    case (Some ord)
    have eq: "Level_modify i q L = ?L'\<lparr>orders := erase_order i (orders ?L') @ [ord]\<rparr>"
      using Some by (simp add: Level_modify_def Let_def)
    have ord: "ord \<in> set (orders ?L')" "order_id ord = i"
      using find_order_Some [OF Some] by auto
    have d: "distinct (map order_id (orders ?L'))"
      using ok' by (simp only: Level_ok_def)
    have sum: "sum_list (map qty (erase_order i (orders ?L'))) = level_qty ?L' - qty ord"
      using sum_erase_order [OF d Some] ok' by (simp only: Level_ok_def)
    have "i \<notin> order_id ` set (erase_order i (orders ?L'))"
      by (simp only: ids_erase_order) simp
    then have "distinct (map order_id (erase_order i (orders ?L') @ [ord]))"
      using distinct_erase_order [OF d, of i] ord(2) by simp
    moreover have "level_qty ?L' = sum_list (map qty (erase_order i (orders ?L') @ [ord]))"
      using sum by simp
    moreover have "\<forall>x \<in> set (erase_order i (orders ?L') @ [ord]).
        level x = Some (s, price L) \<and> qty x \<noteq> 0"
      using ok' ord by (auto simp: Level_ok_def erase_order_def)
    ultimately show ?thesis
      unfolding eq Level_ok_def by simp
  qed
qed

subsection \<open>Where an identifier is held\<close>

lemma holds_Nil [simp]: "holds [] p i = False"
  by (simp add: holds_def)

lemma holds_Cons [simp]:
  "holds (L # Ls) p i \<longleftrightarrow> price L = p \<and> i \<in> order_id ` set (orders L) \<or> holds Ls p i"
  by (auto simp: holds_def)

lemma update_level_simps [simp]:
  "update_level p f [] = []"
  "update_level p f (L # Ls) = (if price L = p then f L else L) # update_level p f Ls"
  by (simp_all add: update_level_def)

lemma holds_emplace [simp]: "holds (emplace p Ls) p' i = holds Ls p' i"
  by (induction Ls) auto

lemma holds_update_level:
  assumes "\<And>L. price (f L) = price L"
  shows "holds (update_level p f Ls) p' i \<longleftrightarrow>
    (if p' = p then \<exists>L \<in> set Ls. price L = p \<and> i \<in> order_id ` set (orders (f L))
     else holds Ls p' i)"
  using assms by (auto simp: holds_def set_update_level)

lemma holds_erase_level: "holds (erase_level p Ls) p' i \<longleftrightarrow> p' \<noteq> p \<and> holds Ls p' i"
  by (auto simp: holds_def set_erase_level)

lemma holds_erase_if_empty [simp]:
  "distinct (map price Ls) \<Longrightarrow> holds (erase_if_empty p Ls) p' i = holds Ls p' i"
  by (auto simp: holds_def set_erase_if_empty)

subsection \<open>Level sets under the operations of the book\<close>

lemma Levels_ok_sorted: "Levels_ok s Ls \<Longrightarrow> sorted_wrt (>) (map price Ls)"
  by (simp add: Levels_ok_def)

lemma Levels_ok_distinct: "Levels_ok s Ls \<Longrightarrow> distinct (map price Ls)"
  by (simp add: Levels_ok_def sorted_gt_distinct)

lemma Levels_ok_Level: "Levels_ok s Ls \<Longrightarrow> L \<in> set Ls \<Longrightarrow> Level_ok s L"
  by (simp add: Levels_ok_def)

lemma holds_add_at:
  "holds (update_level p (Level_add this i q) (emplace p Ls)) p' j
     \<longleftrightarrow> holds Ls p' j \<or> (p' = p \<and> j = i)"
proof -
  have "p \<in> price ` set (emplace p Ls)"
    by (simp add: emplace_prices_set)
  then have "(\<exists>L \<in> set (emplace p Ls). price L = p \<and> (j \<in> order_id ` set (orders L) \<or> j = i))
      \<longleftrightarrow> holds (emplace p Ls) p j \<or> j = i"
    unfolding holds_def by blast
  then show ?thesis
    by (auto simp: holds_update_level)
qed

lemma holds_splice_in_at:
  "holds (update_level p (splice_in this ord q) (emplace p Ls)) p' j
     \<longleftrightarrow> holds Ls p' j \<or> (p' = p \<and> j = order_id ord)"
proof -
  have "p \<in> price ` set (emplace p Ls)"
    by (simp add: emplace_prices_set)
  then have "(\<exists>L \<in> set (emplace p Ls). price L = p
        \<and> (j \<in> order_id ` set (orders L) \<or> j = order_id ord))
      \<longleftrightarrow> holds (emplace p Ls) p j \<or> j = order_id ord"
    unfolding holds_def by blast
  then show ?thesis
    by (auto simp: holds_update_level)
qed

lemma holds_cancel_upd:
  "holds (update_level p (Level_cancel i) Ls) p' j \<longleftrightarrow> holds Ls p' j \<and> \<not> (p' = p \<and> j = i)"
  by (induction Ls) (auto simp: ids_erase_order)

lemma holds_splice_out_upd:
  "holds (update_level p (splice_out i q0) Ls) p' j \<longleftrightarrow> holds Ls p' j \<and> \<not> (p' = p \<and> j = i)"
  by (induction Ls) (auto simp: ids_erase_order)

lemma ids_set_Level_modify_qty:
  "order_id ` set (orders (Level_modify_qty i q L)) = order_id ` set (orders L)"
  using arg_cong [OF ids_Level_modify_qty [of i q L], of set]
  by (simp del: ids_Level_modify_qty Level_modify_qty_simps)

lemma holds_modify_qty_upd [simp]:
  "holds (update_level p (Level_modify_qty i q) Ls) p' j \<longleftrightarrow> holds Ls p' j"
  by (induction Ls) (simp_all add: ids_set_Level_modify_qty del: Level_modify_qty_simps(2))

lemma holds_modify_upd [simp]:
  "holds (update_level p (Level_modify i q) Ls) p' j \<longleftrightarrow> holds Ls p' j"
  by (induction Ls) simp_all

lemma Levels_ok_add_at:
  assumes "Levels_ok s Ls" and "q \<noteq> 0" and "\<not> holds Ls p i"
  shows "Levels_ok s (update_level p (Level_add (s, p) i q) (emplace p Ls))"
proof -
  have sorted: "sorted_wrt (>) (map price (emplace p Ls))"
    using assms(1) by (simp add: Levels_ok_def sorted_emplace)
  have "Level_ok s L'" if "L' \<in> set (update_level p (Level_add (s, p) i q) (emplace p Ls))" for L'
  proof -
    from that consider "L' \<in> set (emplace p Ls)" "price L' \<noteq> p"
      | L where "L \<in> set (emplace p Ls)" "price L = p" "L' = Level_add (s, p) i q L"
      by (auto simp: set_update_level)
    then show ?thesis
    proof cases
      case 1
      then have "L' \<in> set Ls"
        using set_emplace [OF Levels_ok_sorted [OF assms(1)], of p] by (auto split: if_splits)
      then show ?thesis using assms(1) by (rule Levels_ok_Level [rotated])
    next
      case 2
      then have "L \<in> set Ls \<or> L = new_Level p"
        using set_emplace [OF Levels_ok_sorted [OF assms(1)], of p] by (auto split: if_splits)
      then have *: "orders L = [] \<and> level_qty L = 0 \<or> L \<in> set Ls"
        by auto
      then have "orders L = [] \<and> level_qty L = 0 \<or> Level_ok s L"
        using assms(1) by (auto simp: Levels_ok_def)
      moreover have "i \<notin> order_id ` set (orders L)"
        using 2(2) assms(3) * by (auto simp: holds_def)
      ultimately show ?thesis
        using Level_ok_add [of L s i q] assms(2) 2 by simp
    qed
  qed
  then show ?thesis
    using sorted by (simp add: Levels_ok_def prices_update_level)
qed

lemma Levels_ok_splice_in_at:
  assumes "Levels_ok s Ls" and "q \<noteq> 0" and "\<not> holds Ls p (order_id ord)"
  shows "Levels_ok s (update_level p (splice_in (s, p) ord q) (emplace p Ls))"
proof -
  have sorted: "sorted_wrt (>) (map price (emplace p Ls))"
    using assms(1) by (simp add: Levels_ok_def sorted_emplace)
  have "Level_ok s L'"
    if "L' \<in> set (update_level p (splice_in (s, p) ord q) (emplace p Ls))" for L'
  proof -
    from that consider "L' \<in> set (emplace p Ls)" "price L' \<noteq> p"
      | L where "L \<in> set (emplace p Ls)" "price L = p" "L' = splice_in (s, p) ord q L"
      by (auto simp: set_update_level)
    then show ?thesis
    proof cases
      case 1
      then have "L' \<in> set Ls"
        using set_emplace [OF Levels_ok_sorted [OF assms(1)], of p] by (auto split: if_splits)
      then show ?thesis using assms(1) by (rule Levels_ok_Level [rotated])
    next
      case 2
      then have "L \<in> set Ls \<or> L = new_Level p"
        using set_emplace [OF Levels_ok_sorted [OF assms(1)], of p] by (auto split: if_splits)
      then have *: "orders L = [] \<and> level_qty L = 0 \<or> L \<in> set Ls"
        by auto
      then have "orders L = [] \<and> level_qty L = 0 \<or> Level_ok s L"
        using assms(1) by (auto simp: Levels_ok_def)
      moreover have "order_id ord \<notin> order_id ` set (orders L)"
        using 2(2) assms(3) * by (auto simp: holds_def)
      ultimately show ?thesis
        using Level_ok_splice_in [of L s ord q] assms(2) 2 by simp
    qed
  qed
  then show ?thesis
    using sorted by (simp add: Levels_ok_def prices_update_level)
qed

lemma Levels_ok_cancel_at:
  assumes "Levels_ok s Ls"
  shows "Levels_ok s (erase_if_empty p (update_level p (Level_cancel i) Ls))"
proof -
  let ?U = "update_level p (Level_cancel i) Ls"
  have prices: "map price ?U = map price Ls"
    by (simp add: prices_update_level)
  have sorted: "sorted_wrt (>) (map price ?U)"
    using assms by (simp add: prices Levels_ok_def)
  have "Level_ok s L'" if "L' \<in> set (erase_if_empty p ?U)" for L'
  proof -
    from that have "L' \<in> set ?U" "\<not> (price L' = p \<and> orders L' = [])"
      using set_erase_if_empty [OF sorted_gt_distinct [OF sorted], of p] by auto
    then consider "L' \<in> set Ls" "price L' \<noteq> p"
      | L where "L \<in> set Ls" "L' = Level_cancel i L" "orders (Level_cancel i L) \<noteq> []"
      by (auto simp: set_update_level simp del: orders_Level_cancel)
    then show ?thesis
    proof cases
      case 1
      then show ?thesis using assms by (simp add: Levels_ok_def)
    next
      case 2
      then show ?thesis
        using Level_ok_cancel [of s L i] assms by (simp add: Levels_ok_def del: orders_Level_cancel)
    qed
  qed
  then show ?thesis
    using sorted_erase_if_empty [OF sorted] by (simp add: Levels_ok_def)
qed

lemma Levels_ok_splice_out_at:
  assumes "Levels_ok s Ls" and "L \<in> set Ls" and "price L = p"
    and "find_order i (orders L) = Some ord"
  shows "Levels_ok s (erase_if_empty p (update_level p (splice_out i (qty ord)) Ls))"
proof -
  let ?U = "update_level p (splice_out i (qty ord)) Ls"
  have prices: "map price ?U = map price Ls"
    by (simp add: prices_update_level)
  have sorted: "sorted_wrt (>) (map price ?U)"
    using assms by (simp add: prices Levels_ok_def)
  have uniq: "L0 = L" if "L0 \<in> set Ls" "price L0 = p" for L0
    using that assms(2,3) Levels_ok_distinct [OF assms(1)]
    by (auto simp: distinct_map dest: inj_onD)
  have "Level_ok s L'" if "L' \<in> set (erase_if_empty p ?U)" for L'
  proof -
    from that have "L' \<in> set ?U" "\<not> (price L' = p \<and> orders L' = [])"
      using set_erase_if_empty [OF sorted_gt_distinct [OF sorted], of p] by auto
    then consider "L' \<in> set Ls" "price L' \<noteq> p"
      | "L' = splice_out i (qty ord) L" "erase_order i (orders L) \<noteq> []"
      using uniq by (auto simp: set_update_level)
    then show ?thesis
    proof cases
      case 1
      then show ?thesis using assms by (simp add: Levels_ok_def)
    next
      case 2
      then show ?thesis
        using Level_ok_splice_out [of s L i ord] assms by (simp add: Levels_ok_def)
    qed
  qed
  then show ?thesis
    using sorted_erase_if_empty [OF sorted] by (simp add: Levels_ok_def)
qed

lemma Levels_ok_update_at:
  assumes "Levels_ok s Ls" and "\<And>L. price (f L) = price L"
    and "\<And>L. Level_ok s L \<Longrightarrow> Level_ok s (f L)"
  shows "Levels_ok s (update_level p f Ls)"
  using assms by (auto simp: Levels_ok_def prices_update_level set_update_level)

subsection \<open>The structural invariant under the operations of the book\<close>

lemma levels_of_map_levels:
  "s \<noteq> Side.Invalid \<Longrightarrow>
   levels_of s' (map_levels s f b) = (if s' = s then f (levels_of s b) else levels_of s' b)"
  by (cases s; cases s') auto

lemma orders_by_id_map_levels [simp]: "orders_by_id (map_levels s f b) = orders_by_id b"
  by (cases s) auto

lemma levels_of_index_update [simp]:
  "levels_of s (b\<lparr>orders_by_id := m\<rparr>) = levels_of s b"
  by (cases s) auto

lemma struct_okI:
  assumes "\<And>s. s \<noteq> Side.Invalid \<Longrightarrow> Levels_ok s (levels_of s b)"
    and "\<And>i s p. orders_by_id b i = Some (s, p) \<longleftrightarrow> holds (levels_of s b) p i"
  shows "struct_ok b"
proof -
  have "Levels_ok s (levels_of s b)" for s
    using assms(1) [of s] by (cases s) (auto simp: Levels_ok_def)
  then show ?thesis using assms(2) by (simp add: struct_ok_def index_ok_def)
qed

lemma struct_ok_Levels: "struct_ok b \<Longrightarrow> Levels_ok s (levels_of s b)"
  by (simp add: struct_ok_def)

lemma struct_ok_index:
  "struct_ok b \<Longrightarrow> orders_by_id b i = Some (s, p) \<longleftrightarrow> holds (levels_of s b) p i"
  by (simp add: struct_ok_def index_ok_def)

lemma struct_ok_side: "struct_ok b \<Longrightarrow> orders_by_id b i = Some (s, p) \<Longrightarrow> s \<noteq> Side.Invalid"
  by (auto simp: struct_ok_index)

lemma struct_ok_fresh:
  "struct_ok b \<Longrightarrow> orders_by_id b i = None \<Longrightarrow> \<not> holds (levels_of s b) p i"
  using struct_ok_index [of b i s p] by simp

lemma struct_ok_unique:
  "struct_ok b \<Longrightarrow> holds (levels_of s b) p i \<Longrightarrow> holds (levels_of s' b) p' i \<Longrightarrow>
   s = s' \<and> p = p'"
  using struct_ok_index [of b i s p] struct_ok_index [of b i s' p'] by simp

lemma levels_of_empty [simp]: "levels_of s empty_Book = []"
  by (cases s) (simp_all add: empty_Book_def)

lemma levels_of_clear [simp]: "levels_of s (Book_clear b) = []"
  by (cases s) (simp_all add: Book_clear_def)

lemma struct_ok_empty: "struct_ok empty_Book"
  by (rule struct_okI) (simp_all add: Levels_ok_def, simp add: empty_Book_def)

lemma struct_ok_clear: "struct_ok (Book_clear b)"
  by (rule struct_okI) (simp_all add: Levels_ok_def, simp add: Book_clear_def)

lemma struct_ok_add_levels:
  assumes "struct_ok b" and "s \<noteq> Side.Invalid" and "q \<noteq> 0"
  shows "struct_ok (add_levels s i q p b)"
proof (cases "orders_by_id b i")
  case (Some a)
  then show ?thesis using assms(1) by (simp add: add_levels_def)
next
  case None
  note fresh = struct_ok_fresh [OF assms(1) None]
  show ?thesis
  proof (rule struct_okI)
    fix s' assume "s' \<noteq> Side.Invalid"
    show "Levels_ok s' (levels_of s' (add_levels s i q p b))"
      using None assms fresh [of s p] struct_ok_Levels [OF assms(1)]
      by (simp add: add_levels_def levels_of_map_levels Levels_ok_add_at)
  next
    fix j s' p'
    show "orders_by_id (add_levels s i q p b) j = Some (s', p')
        \<longleftrightarrow> holds (levels_of s' (add_levels s i q p b)) p' j"
      using None assms(2) fresh [of s' p'] struct_ok_index [OF assms(1), of j s' p']
      by (auto simp: add_levels_def levels_of_map_levels holds_add_at)
  qed
qed

lemma struct_ok_add: "struct_ok b \<Longrightarrow> q \<noteq> 0 \<Longrightarrow> struct_ok (Book_add s i q p b)"
  by (cases s) (simp_all add: Book_add_def struct_ok_add_levels)

lemma struct_ok_cancel:
  assumes "struct_ok b"
  shows "struct_ok (Book_cancel i b)"
proof (cases "orders_by_id b i")
  case None
  then show ?thesis using assms by (simp add: Book_cancel_def)
next
  case (Some a)
  obtain s p where a: "a = (s, p)" by (cases a)
  have s: "s \<noteq> Side.Invalid"
    using struct_ok_side [OF assms] Some a by blast
  have eq: "Book_cancel i b =
      (map_levels s (\<lambda>Ls. erase_if_empty p (update_level p (Level_cancel i) Ls)) b)
        \<lparr>orders_by_id := (orders_by_id b)(i := None)\<rparr>"
    using Some a by (simp add: Book_cancel_def)
  have d: "distinct (map price (update_level p (Level_cancel i) (levels_of s b)))"
    using Levels_ok_distinct [OF struct_ok_Levels [OF assms], of s]
    by (simp add: prices_update_level)
  show ?thesis
  proof (rule struct_okI)
    fix s' assume "s' \<noteq> Side.Invalid"
    show "Levels_ok s' (levels_of s' (Book_cancel i b))"
      using s struct_ok_Levels [OF assms]
      by (simp add: eq levels_of_map_levels Levels_ok_cancel_at)
  next
    fix j s' p'
    have "holds (levels_of s' b) p' i \<longleftrightarrow> s' = s \<and> p' = p"
      using struct_ok_index [OF assms, of i s' p'] Some a by auto
    then show "orders_by_id (Book_cancel i b) j = Some (s', p')
        \<longleftrightarrow> holds (levels_of s' (Book_cancel i b)) p' j"
      using s d struct_ok_index [OF assms, of j s' p']
      by (auto simp: eq levels_of_map_levels holds_cancel_upd)
  qed
qed

lemma struct_ok_update:
  assumes "struct_ok b" and "\<And>L. price (f L) = price L"
    and "\<And>L. Level_ok s L \<Longrightarrow> Level_ok s (f L)"
    and "\<And>Ls p' j. holds (update_level p f Ls) p' j \<longleftrightarrow> holds Ls p' j"
  shows "struct_ok (map_levels s (update_level p f) b)"
proof (cases "s = Side.Invalid")
  case True
  then show ?thesis using assms(1) by simp
next
  case False
  show ?thesis
  proof (rule struct_okI)
    fix s'
    show "Levels_ok s' (levels_of s' (map_levels s (update_level p f) b))"
      using False struct_ok_Levels [OF assms(1)] assms(2,3)
      by (simp add: levels_of_map_levels Levels_ok_update_at)
  next
    fix j s' p'
    show "orders_by_id (map_levels s (update_level p f) b) j = Some (s', p')
        \<longleftrightarrow> holds (levels_of s' (map_levels s (update_level p f) b)) p' j"
      using False struct_ok_index [OF assms(1), of j s' p'] assms(4)
      by (simp add: levels_of_map_levels)
  qed
qed

lemma struct_ok_modify_qty:
  "struct_ok b \<Longrightarrow> q \<noteq> 0 \<Longrightarrow> struct_ok (map_levels s (update_level p (Level_modify_qty i q)) b)"
  by (rule struct_ok_update) (simp_all add: Level_ok_modify_qty del: Level_modify_qty_simps(2))

lemma struct_ok_modify_same:
  "struct_ok b \<Longrightarrow> q \<noteq> 0 \<Longrightarrow> struct_ok (map_levels s (update_level p (Level_modify i q)) b)"
  by (rule struct_ok_update) (simp_all add: Level_ok_modify)

lemma holds_splice_in_upd:
  assumes "p \<in> price ` set Z"
  shows "holds (update_level p (splice_in this ord q) Z) p' j
     \<longleftrightarrow> holds Z p' j \<or> (p' = p \<and> j = order_id ord)"
proof -
  have "(\<exists>L \<in> set Z. price L = p \<and> (j \<in> order_id ` set (orders L) \<or> j = order_id ord))
      \<longleftrightarrow> holds Z p j \<or> j = order_id ord"
    using assms unfolding holds_def by blast
  then show ?thesis
    by (auto simp: holds_update_level)
qed

lemma Levels_ok_relocate_same:
  assumes ok: "Levels_ok s Ls" and L: "L \<in> set Ls" "price L = p0"
    and ord: "find_order i (orders L) = Some ord"
    and ne: "p \<noteq> p0" and q: "q \<noteq> 0" and fresh: "\<not> holds Ls p i"
  shows "Levels_ok s
    (erase_if_empty p0 (update_level p (splice_in (s, p) ord q)
       (update_level p0 (splice_out i (qty ord)) (emplace p Ls))))"
proof -
  let ?E = "emplace p Ls"
  let ?U1 = "update_level p0 (splice_out i (qty ord)) ?E"
  let ?U2 = "update_level p (splice_in (s, p) ord q) ?U1"
  have sortedE: "sorted_wrt (>) (map price ?E)"
    using ok by (simp add: Levels_ok_def sorted_emplace)
  have prices: "map price ?U2 = map price ?E"
    by (simp add: prices_update_level)
  have sorted: "sorted_wrt (>) (map price ?U2)"
    using sortedE by (simp only: prices)
  have setE: "X \<in> set Ls \<or> X = new_Level p" if "X \<in> set ?E" for X
    using that set_emplace [OF Levels_ok_sorted [OF ok], of p] by (auto split: if_splits)
  have uniq: "L0 = L" if "L0 \<in> set Ls" "price L0 = p0" for L0
    using that L Levels_ok_distinct [OF ok] by (auto simp: distinct_map dest: inj_onD)
  have i: "order_id ord = i"
    using find_order_Some [OF ord] by simp
  have "Level_ok s L'" if "L' \<in> set (erase_if_empty p0 ?U2)" for L'
  proof -
    from that have L': "L' \<in> set ?U2" "\<not> (price L' = p0 \<and> orders L' = [])"
      using set_erase_if_empty [OF sorted_gt_distinct [OF sorted], of p0] by auto
    from L'(1) consider "L' \<in> set ?U1" "price L' \<noteq> p"
      | X where "X \<in> set ?U1" "price X = p" "L' = splice_in (s, p) ord q X"
      by (auto simp: set_update_level)
    then show ?thesis
    proof cases
      case 1
      from 1(1) consider "L' \<in> set ?E" "price L' \<noteq> p0"
        | Y where "Y \<in> set ?E" "price Y = p0" "L' = splice_out i (qty ord) Y"
        by (auto simp: set_update_level)
      then show ?thesis
      proof cases
        case 1
        then have "L' \<in> set Ls"
          using setE [of L'] \<open>price L' \<noteq> p\<close> by auto
        then show ?thesis using ok by (simp add: Levels_ok_def)
      next
        case 2
        then have "Y = L"
          using setE [of Y] ne uniq by auto
        then show ?thesis
          using 2 L' Level_ok_splice_out [of s L i ord] ok L ord by (simp add: Levels_ok_def)
      qed
    next
      case 2
      from 2(1,2) have "X \<in> set ?E"
        using ne by (auto simp: set_update_level)
      then have *: "orders X = [] \<and> level_qty X = 0 \<or> X \<in> set Ls"
        using setE [of X] by auto
      then have "orders X = [] \<and> level_qty X = 0 \<or> Level_ok s X"
        using ok by (auto simp: Levels_ok_def)
      moreover have "order_id ord \<notin> order_id ` set (orders X)"
        using * 2(2) fresh i by (auto simp: holds_def)
      ultimately show ?thesis
        using Level_ok_splice_in [of X s ord q] q 2 by simp
    qed
  qed
  then show ?thesis
    using sorted_erase_if_empty [OF sorted] by (simp add: Levels_ok_def)
qed

lemma struct_ok_find:
  assumes "struct_ok b" and "orders_by_id b i = Some (s, p)"
  obtains L ord where "find_level p (levels_of s b) = Some L" "L \<in> set (levels_of s b)"
    "price L = p" "find_order i (orders L) = Some ord" "order_id ord = i"
    "ord \<in> set (orders L)"
proof -
  from assms obtain L where L: "L \<in> set (levels_of s b)" "price L = p"
      "i \<in> order_id ` set (orders L)"
    by (auto simp: struct_ok_index holds_def)
  have "find_level p (levels_of s b) = Some L"
    using L Levels_ok_distinct [OF struct_ok_Levels [OF assms(1)], of s]
    by (simp add: find_level_Some)
  moreover obtain ord where "find_order i (orders L) = Some ord"
    using L(3) find_order_None [of i "orders L"] by (cases "find_order i (orders L)") auto
  ultimately show ?thesis
    using that L find_order_Some by blast
qed

lemma struct_ok_modify_levels:
  assumes ok: "struct_ok b" and s: "s \<noteq> Side.Invalid" and q: "q \<noteq> 0"
  shows "struct_ok (modify_levels s i q p b)"
proof (cases "orders_by_id b i")
  case None
  then show ?thesis using ok by (simp add: modify_levels_def)
next
  case (Some a)
  obtain s0 p0 where a: "a = (s0, p0)" by (cases a)
  have live: "orders_by_id b i = Some (s0, p0)" using Some a by simp
  from struct_ok_find [OF ok live] obtain L ord where
    L: "find_level p0 (levels_of s0 b) = Some L" "L \<in> set (levels_of s0 b)" "price L = p0"
      "find_order i (orders L) = Some ord" "order_id ord = i"
    by metis
  have s0: "s0 \<noteq> Side.Invalid" using struct_ok_side [OF ok live] .
  have loc: "holds (levels_of s' b) p' i \<longleftrightarrow> s' = s0 \<and> p' = p0" for s' p'
    using struct_ok_index [OF ok, of i s' p'] live by auto
  show ?thesis
  proof (cases "s0 = s \<and> p0 = p")
    case True
    then show ?thesis
      using ok q live L by (simp add: modify_levels_def struct_ok_modify_same)
  next
    case False
    let ?out = "update_level p0 (splice_out i (qty ord))"
    let ?in = "update_level p (splice_in (s, p) ord q)"
    define b' where "b' = (map_levels s0 (erase_if_empty p0) (map_levels s ?in
        (map_levels s0 ?out (map_levels s (emplace p) b))))
          \<lparr>orders_by_id := (orders_by_id b)(i \<mapsto> (s, p))\<rparr>"
    have eq: "modify_levels s i q p b = b'"
      using False live L by (auto simp: modify_levels_def Let_def b'_def)
    have lv: "levels_of s' b' =
        (if s' = s \<and> s' = s0 then erase_if_empty p0 (?in (?out (emplace p (levels_of s b))))
         else if s' = s then ?in (emplace p (levels_of s b))
         else if s' = s0 then erase_if_empty p0 (?out (levels_of s0 b))
         else levels_of s' b)" for s'
      using s s0 by (auto simp: b'_def levels_of_map_levels)
    have hold: "holds (levels_of s' b') p' j \<longleftrightarrow>
        (holds (levels_of s' b) p' j \<and> \<not> (s' = s0 \<and> p' = p0 \<and> j = i))
          \<or> (s' = s \<and> p' = p \<and> j = i)" for s' p' j
    proof -
      have d1: "distinct (map price (?in (?out (emplace p (levels_of s b)))))"
        using sorted_emplace [OF Levels_ok_sorted [OF struct_ok_Levels [OF ok]], of p s]
        by (simp add: prices_update_level sorted_gt_distinct)
      have d2: "distinct (map price (?out (levels_of s0 b)))"
        using Levels_ok_distinct [OF struct_ok_Levels [OF ok], of s0]
        by (simp add: prices_update_level)
      have pin: "p \<in> price ` set (?out (emplace p (levels_of s b)))"
        using emplace_prices_set [of p "levels_of s b"]
          arg_cong [OF prices_update_level [of "splice_out i (qty ord)" p0 "emplace p (levels_of s b)"], of set]
        by simp
      show ?thesis
        using d1 d2 pin L(5)
        by (auto simp: lv holds_splice_in_upd holds_splice_in_at holds_splice_out_upd)
    qed
    have "struct_ok b'"
    proof (rule struct_okI)
      fix s' assume "s' \<noteq> Side.Invalid"
      show "Levels_ok s' (levels_of s' b')"
      proof (cases "s' = s")
        case True
        show ?thesis
        proof (cases "s = s0")
          case True
          with False have "p \<noteq> p0" by simp
          then show ?thesis
            using Levels_ok_relocate_same [OF struct_ok_Levels [OF ok, of s] _ _ L(4), of p0 p q]
              L(2,3) q loc [of s p] True \<open>s' = s\<close>
            by (simp add: lv)
        next
          case False
          then show ?thesis
            using Levels_ok_splice_in_at [OF struct_ok_Levels [OF ok, of s] q, of p ord]
              loc [of s p] L(5) \<open>s' = s\<close>
            by (simp add: lv)
        qed
      next
        case False
        then show ?thesis
          using Levels_ok_splice_out_at [OF struct_ok_Levels [OF ok, of s0] L(2,3,4)]
            struct_ok_Levels [OF ok, of s']
          by (simp add: lv)
      qed
    next
      fix j s' p'
      show "orders_by_id b' j = Some (s', p') \<longleftrightarrow> holds (levels_of s' b') p' j"
        unfolding hold
        using struct_ok_index [OF ok, of j s' p'] loc [of s' p'] live
        by (auto simp: b'_def)
    qed
    then show ?thesis by (simp add: eq)
  qed
qed

lemma struct_ok_modify: "struct_ok b \<Longrightarrow> q \<noteq> 0 \<Longrightarrow> struct_ok (Book_modify s i q p b)"
  by (cases s) (simp_all add: Book_modify_def struct_ok_modify_levels)

lemma struct_ok_fill_orders:
  "struct_ok b \<Longrightarrow> struct_ok (fst (fill_orders ts b))"
proof (induction ts arbitrary: b)
  case Nil
  then show ?case by simp
next
  case (Cons t ts)
  let ?leaves = "qty (passive_order t) - qty (aggressive_order t)"
  show ?case
  proof (cases "?leaves = 0")
    case True
    then show ?thesis
      using Cons.IH [OF struct_ok_cancel [OF Cons.prems, of "order_id (passive_order t)"]]
      by (simp add: Let_def split_beta)
  next
    case False
    show ?thesis
    proof (cases "level (passive_order t)")
      case None
      then show ?thesis
        using False Cons.IH [OF Cons.prems] by (simp add: Let_def split_beta)
    next
      case (Some a)
      obtain s lp where "a = (s, lp)" by (cases a)
      then show ?thesis
        using False Some
          Cons.IH [OF struct_ok_modify_qty [OF Cons.prems False,
            of s lp "order_id (passive_order t)"]]
        by (simp add: Let_def split_beta)
    qed
  qed
qed

lemma struct_ok_match:
  "struct_ok b \<Longrightarrow> struct_ok (fst (snd (Book_match side i q p b ts)))"
  using struct_ok_fill_orders [of b]
  by (simp add: Book_match_def split_beta)

subsection \<open>The walk of the code is the walk of the specification\<close>

lemma match_orders_append:
  "match_orders i p lp os leaves (ts @ ts') =
     (case match_orders i p lp os leaves ts' of (l, r, stop) \<Rightarrow> (l, ts @ r, stop))"
  by (induction os arbitrary: leaves ts') (auto simp: Let_def)

lemma match_orders_fill:
  "match_orders i p lp os leaves ts =
     (let cs = map (\<lambda>ord. (lp, ord)) (filter (\<lambda>ord. order_id ord \<noteq> i) os);
          r = fill_candidates i p leaves cs
      in (snd r, ts @ fst r, cs \<noteq> [] \<and> snd r = 0))"
proof (induction os arbitrary: leaves ts)
  case Nil
  then show ?case by simp
next
  case (Cons ord os)
  show ?case
  proof (cases "i = order_id ord")
    case True
    then show ?thesis using Cons.IH by (simp add: Let_def)
  next
    case False
    then show ?thesis
      using Cons.IH
      by (auto simp: Let_def make_Trade_def)
  qed
qed


lemma fill_candidates_append:
  "fill_candidates i p leaves (cs @ cs') =
     (let r = fill_candidates i p leaves cs
      in if cs \<noteq> [] \<and> snd r = 0 then r
         else (fst r @ fst (fill_candidates i p (snd r) cs'),
               snd (fill_candidates i p (snd r) cs')))"
  by (induction cs arbitrary: leaves) (auto simp: Let_def)

lemma match_levels_fill:
  "match_levels pred i p Ls leaves ts =
     (let r = fill_candidates i p leaves
                (concat (map (level_candidates i) (takeWhile (\<lambda>L. pred p (price L)) Ls)))
      in (snd r, ts @ fst r))"
proof (induction Ls arbitrary: leaves ts)
  case Nil
  then show ?case by simp
next
  case (Cons L Ls)
  show ?case
  proof (cases "pred p (price L)")
    case False
    then show ?thesis by simp
  next
    case True
    then show ?thesis
      using Cons.IH
      by (simp add: match_orders_fill fill_candidates_append Let_def level_candidates_def
          split: prod.splits)
  qed
qed

lemma match_walk_fill:
  "side \<noteq> Side.Invalid \<Longrightarrow>
   match_walk side i q p b ts =
     (snd (fill_candidates i p q (candidates side i p b)),
      ts @ fst (fill_candidates i p q (candidates side i p b)))"
  by (cases side)
    (simp_all add: match_walk_def match_levels_fill candidates_def compatible_def
      best_first_def Let_def)

lemma match_walk_Invalid [simp]: "match_walk Side.Invalid i q p b ts = (q, ts)"
  by (simp add: match_walk_def)

subsection \<open>Properties of the filled candidates\<close>

lemma fill_candidates_prefix:
  "map (\<lambda>t. (passive_price t, passive_order t)) (fst (fill_candidates i p leaves cs))
     = take (length (fst (fill_candidates i p leaves cs))) cs"
  by (induction cs arbitrary: leaves) (auto simp: Let_def make_Trade_def)

lemma fill_candidates_trade:
  "t \<in> set (fst (fill_candidates i p leaves cs)) \<Longrightarrow>
   qty (aggressive_order t) \<le> qty (passive_order t) \<and> order_id (aggressive_order t) = i
     \<and> aggressive_price t = p \<and> level (aggressive_order t) = None
     \<and> (passive_price t, passive_order t) \<in> set cs"
proof (induction cs arbitrary: leaves)
  case Nil
  then show ?case by simp
next
  case (Cons c cs)
  let ?fill = "min leaves (qty (snd c))"
  from Cons.prems consider "t = make_Trade i p ?fill c"
    | "t \<in> set (fst (fill_candidates i p (leaves - ?fill) cs))"
    by (auto simp: Let_def split: if_splits)
  then show ?case
  proof cases
    case 1
    have "?fill \<le> qty (snd c)" by simp
    then show ?thesis
      unfolding 1 by (simp add: make_Trade_def new_Order_def)
  next
    case 2
    then show ?thesis using Cons.IH by auto
  qed
qed

lemma fill_candidates_all:
  "snd (fill_candidates i p leaves cs) \<noteq> 0 \<Longrightarrow>
   fst (fill_candidates i p leaves cs) = map (\<lambda>c. make_Trade i p (qty (snd c)) c) cs"
proof (induction cs arbitrary: leaves)
  case Nil
  then show ?case by simp
next
  case (Cons c cs)
  let ?fill = "min leaves (qty (snd c))"
  from Cons.prems have ne: "leaves - ?fill \<noteq> 0"
    by (auto simp: Let_def split: if_splits)
  then have "?fill = qty (snd c)"
    by (auto simp: min_def split: if_splits)
  then show ?case
    using Cons ne by (simp add: Let_def)
qed

lemma fill_candidates_leaves_le:
  "snd (fill_candidates i p leaves cs) \<le> leaves"
proof (induction cs arbitrary: leaves)
  case Nil
  then show ?case by simp
next
  case (Cons c cs)
  have "leaves - min leaves (qty (snd c)) \<le> leaves"
    by (simp add: word_sub_le)
  then show ?case
    using Cons [of "leaves - min leaves (qty (snd c))"]
    by (auto simp: Let_def intro: order_trans)
qed

subsection \<open>The effect of the fills on the book\<close>

lemma fill_orders_trades: "snd (fill_orders ts b) = map normalized ts"
proof (induction ts arbitrary: b)
  case Nil
  then show ?case by simp
next
  case (Cons t ts)
  have "qty (passive_order t) - qty (aggressive_order t) = 0 \<Longrightarrow> normalized t = t"
    by (simp add: normalized_def)
  then show ?case
    using Cons by (simp add: Let_def split_beta normalized_def)
qed

lemma orders_by_id_cancel:
  "orders_by_id (Book_cancel j b) = (orders_by_id b)(j := None)"
  by (auto simp: Book_cancel_def split: option.splits)

lemma fill_orders_step:
  "fst (fill_orders (t # ts) b) =
     fst (fill_orders ts
       (if fully_filled t then Book_cancel (order_id (passive_order t)) b
        else case level (passive_order t) of
               None \<Rightarrow> b
             | Some (s, lp) \<Rightarrow>
                 map_levels s (update_level lp (Level_modify_qty (order_id (passive_order t))
                   (qty (passive_order t) - qty (aggressive_order t)))) b))"
  by (simp add: Let_def split_beta fully_filled_def)

lemma fill_orders_index:
  "orders_by_id (fst (fill_orders ts b)) =
     (\<lambda>j. if \<exists>t \<in> set ts. fully_filled t \<and> order_id (passive_order t) = j then None
          else orders_by_id b j)"
proof (induction ts arbitrary: b)
  case Nil
  then show ?case by simp
next
  case (Cons t ts)
  show ?case
  proof (cases "fully_filled t")
    case True
    then show ?thesis
      unfolding fill_orders_step Cons
      by (auto simp: orders_by_id_cancel fun_eq_iff)
  next
    case False
    then show ?thesis
      unfolding fill_orders_step Cons
      by (auto simp: fun_eq_iff split: option.splits)
  qed
qed

lemma fill_level_price [simp]: "price (fill_level t L) = price L"
  by (simp add: fill_level_def Let_def)

lemma fill_level_empty: "orders L = [] \<Longrightarrow> orders (fill_level t L) = []"
  by (simp add: fill_level_def Let_def)

lemma fold_fill_level_empty: "orders L = [] \<Longrightarrow> orders (fold fill_level ts L) = []"
  by (induction ts arbitrary: L) (simp_all add: fill_level_empty)

lemma filter_map_filter_nonempty:
  assumes "\<And>L. orders L = [] \<Longrightarrow> orders (g L) = []"
  shows "filter (\<lambda>L. orders L \<noteq> []) (map g (filter (\<lambda>L. orders L \<noteq> []) Ls))
    = filter (\<lambda>L. orders L \<noteq> []) (map g Ls)"
  using assms by (induction Ls) auto

lemma cancel_step_closed:
  assumes "distinct (map price Ls)" and "\<forall>L \<in> set Ls. orders L \<noteq> []"
  shows "erase_if_empty lp (update_level lp (Level_cancel j) Ls)
    = filter (\<lambda>L. orders L \<noteq> []) (update_level lp (Level_cancel j) Ls)"
proof -
  let ?U = "update_level lp (Level_cancel j) Ls"
  have d: "distinct (map price ?U)"
    using assms(1) by (simp add: prices_update_level)
  have other: "orders L' \<noteq> []" if "L' \<in> set ?U" "price L' \<noteq> lp" for L'
    using that assms(2) by (auto simp: set_update_level)
  show ?thesis
  proof (cases "find_level lp ?U")
    case None
    then have "\<forall>L' \<in> set ?U. orders L' \<noteq> []"
      using other by (auto simp: find_level_None)
    then show ?thesis
      using None by (simp add: erase_if_empty_def)
  next
    case (Some L0)
    then have L0: "L0 \<in> set ?U" "price L0 = lp"
      using d by (simp_all add: find_level_Some)
    have uniq: "L' = L0" if "L' \<in> set ?U" "price L' = lp" for L'
      using that L0 d by (auto simp: distinct_map dest: inj_onD)
    show ?thesis
    proof (cases "orders L0 = []")
      case True
      have "filter (\<lambda>L. price L \<noteq> lp) ?U = filter (\<lambda>L. orders L \<noteq> []) ?U"
        by (rule filter_cong [OF refl]) (use other uniq True in blast)
      then show ?thesis
        using Some True by (simp add: erase_if_empty_def erase_level_def)
    next
      case False
      then have "\<forall>L' \<in> set ?U. orders L' \<noteq> []"
        using other uniq by blast
      then show ?thesis
        using Some False by (simp add: erase_if_empty_def)
    qed
  qed
qed

lemma Level_cancel_fill_level:
  assumes "distinct (map order_id (orders L))" and "level_qty L = sum_list (map qty (orders L))"
    and "fully_filled t" and "price L = passive_price t"
  shows "Level_cancel (order_id (passive_order t)) L = fill_level t L"
proof (cases "find_order (order_id (passive_order t)) (orders L)")
  case None
  then have "filter (\<lambda>ord. order_id ord \<noteq> order_id (passive_order t)) (orders L) = orders L"
    using erase_order_absent [of "order_id (passive_order t)" "orders L"]
    by (simp add: find_order_None erase_order_def)
  then show ?thesis
    using None assms by (simp add: Level_cancel_def fill_level_def Let_def)
next
  case (Some ord)
  then show ?thesis
    using assms sum_erase_order [OF assms(1) Some]
    by (simp add: Level_cancel_def fill_level_def Let_def erase_order_def)
qed

lemma Level_modify_qty_fill_level:
  assumes "distinct (map order_id (orders L))" and "level_qty L = sum_list (map qty (orders L))"
    and "\<not> fully_filled t" and "price L = passive_price t"
  shows "Level_modify_qty (order_id (passive_order t))
      (qty (passive_order t) - qty (aggressive_order t)) L = fill_level t L"
proof (cases "find_order (order_id (passive_order t)) (orders L)")
  case None
  then have "map (\<lambda>ord. if order_id ord = order_id (passive_order t)
        then ord\<lparr>qty := qty (passive_order t) - qty (aggressive_order t)\<rparr> else ord) (orders L)
      = orders L"
    by (simp add: find_order_None set_qty_absent)
  then show ?thesis
    using None assms by (simp add: Level_modify_qty_def fill_level_def Let_def)
next
  case (Some ord)
  then show ?thesis
    using assms sum_set_qty [OF assms(1) Some]
    by (simp add: Level_modify_qty_def fill_level_def Let_def)
qed

lemma update_level_fill_level:
  assumes "\<forall>L \<in> set Ls. distinct (map order_id (orders L))
      \<and> level_qty L = sum_list (map qty (orders L))"
  shows "fully_filled t \<Longrightarrow>
     update_level (passive_price t) (Level_cancel (order_id (passive_order t))) Ls
       = map (fill_level t) Ls"
    and "\<not> fully_filled t \<Longrightarrow>
     update_level (passive_price t)
       (Level_modify_qty (order_id (passive_order t))
          (qty (passive_order t) - qty (aggressive_order t))) Ls
       = map (fill_level t) Ls"
proof -
  have other: "price L \<noteq> passive_price t \<Longrightarrow> fill_level t L = L" for L
    by (simp add: fill_level_def)
  show "fully_filled t \<Longrightarrow>
     update_level (passive_price t) (Level_cancel (order_id (passive_order t))) Ls
       = map (fill_level t) Ls"
    unfolding update_level_def
    using assms by (intro map_cong [OF refl]) (simp add: Level_cancel_fill_level other)
  show "\<not> fully_filled t \<Longrightarrow>
     update_level (passive_price t)
       (Level_modify_qty (order_id (passive_order t))
          (qty (passive_order t) - qty (aggressive_order t))) Ls
       = map (fill_level t) Ls"
    unfolding update_level_def
    using assms by (intro map_cong [OF refl]) (simp add: Level_modify_qty_fill_level other)
qed

lemma struct_ok_sums:
  "struct_ok b \<Longrightarrow> \<forall>L \<in> set (levels_of s b). distinct (map order_id (orders L))
      \<and> level_qty L = sum_list (map qty (orders L))"
  using struct_ok_Levels [of b s] by (simp add: Levels_ok_def Level_ok_def)

lemma modify_qty_nonempty:
  "\<forall>L \<in> set Ls. orders L \<noteq> [] \<Longrightarrow>
   filter (\<lambda>L. orders L \<noteq> []) (update_level lp (Level_modify_qty j q) Ls)
     = update_level lp (Level_modify_qty j q) Ls"
  by (induction Ls) auto

lemma struct_ok_nonempty: "struct_ok b \<Longrightarrow> \<forall>L \<in> set (levels_of s b). orders L \<noteq> []"
  using struct_ok_Levels [of b s] by (auto simp: Levels_ok_def Level_ok_def)

lemma fill_orders_closed:
  assumes "struct_ok b" and "s \<noteq> Side.Invalid"
    and "\<forall>t \<in> set ts. orders_by_id b (order_id (passive_order t)) = Some (s, passive_price t)
            \<and> level (passive_order t) = Some (s, passive_price t)"
    and "distinct (map (\<lambda>t. order_id (passive_order t)) ts)"
  shows "levels_of s' (fst (fill_orders ts b)) =
    (if s' = s then filter (\<lambda>L. orders L \<noteq> []) (map (fold fill_level ts) (levels_of s b))
     else levels_of s' b)"
  using assms
proof (induction ts arbitrary: b)
  case Nil
  have "filter (\<lambda>L. orders L \<noteq> []) (levels_of s b) = levels_of s b"
    using struct_ok_nonempty [OF Nil(1), of s] by (simp add: filter_id_conv)
  then show ?case by simp
next
  case (Cons t ts)
  let ?j = "order_id (passive_order t)"
  let ?lp = "passive_price t"
  let ?q = "qty (passive_order t) - qty (aggressive_order t)"
  define b1 where "b1 = (if fully_filled t then Book_cancel ?j b
      else map_levels s (update_level ?lp (Level_modify_qty ?j ?q)) b)"
  have t: "orders_by_id b ?j = Some (s, ?lp)" "level (passive_order t) = Some (s, ?lp)"
    using Cons.prems(3) by auto
  have step: "fst (fill_orders (t # ts) b) = fst (fill_orders ts b1)"
    using t by (simp add: b1_def Let_def split_beta fully_filled_def)
  have ok1: "struct_ok b1"
    using Cons.prems(1) struct_ok_cancel struct_ok_modify_qty
    by (simp add: b1_def fully_filled_def)
  have idx1: "orders_by_id b1 j = orders_by_id b j" if "j \<noteq> ?j" for j
    using that by (simp add: b1_def orders_by_id_cancel)
  have lv1: "levels_of s' b1 =
      (if s' = s then filter (\<lambda>L. orders L \<noteq> []) (map (fill_level t) (levels_of s b))
       else levels_of s' b)" for s'
  proof (cases "fully_filled t")
    case True
    then show ?thesis
      using t Cons.prems(2)
        cancel_step_closed [OF Levels_ok_distinct [OF struct_ok_Levels [OF Cons.prems(1), of s]]
          struct_ok_nonempty [OF Cons.prems(1), of s], of ?lp ?j]
      by (simp add: b1_def Book_cancel_def levels_of_map_levels
          update_level_fill_level(1) [OF struct_ok_sums [OF Cons.prems(1)]])
  next
    case False
    have "filter (\<lambda>L. orders L \<noteq> []) (map (fill_level t) (levels_of s b))
        = map (fill_level t) (levels_of s b)"
      using modify_qty_nonempty [OF struct_ok_nonempty [OF Cons.prems(1), of s], of ?lp ?j ?q]
      by (simp only: update_level_fill_level(2) [OF struct_ok_sums [OF Cons.prems(1)] False])
    then show ?thesis
      using False Cons.prems(2)
        update_level_fill_level(2) [OF struct_ok_sums [OF Cons.prems(1), of s] False]
      by (simp add: b1_def levels_of_map_levels del: Level_modify_qty_simps)
  qed
  have pre: "\<forall>t' \<in> set ts. orders_by_id b1 (order_id (passive_order t')) = Some (s, passive_price t')
            \<and> level (passive_order t') = Some (s, passive_price t')"
  proof
    fix t' assume t': "t' \<in> set ts"
    then have "order_id (passive_order t') \<noteq> ?j"
      using Cons.prems(4) by (auto simp: image_iff)
    then show "orders_by_id b1 (order_id (passive_order t')) = Some (s, passive_price t')
            \<and> level (passive_order t') = Some (s, passive_price t')"
      using Cons.prems(3) t' idx1 by simp
  qed
  have d: "distinct (map (\<lambda>t. order_id (passive_order t)) ts)"
    using Cons.prems(4) by simp
  show ?case
    unfolding step Cons.IH [OF ok1 Cons.prems(2) pre d] lv1
    by (simp add: filter_map_filter_nonempty fold_fill_level_empty comp_def)
qed

subsection \<open>The candidates of a well-formed book\<close>

lemma set_best_first:
  "side \<noteq> Side.Invalid \<Longrightarrow> set (best_first side b) = set (levels_of (opposite side) b)"
  by (cases side) (simp_all add: best_first_def opposite_def)

lemma opposite_valid [simp]: "opposite side \<noteq> Side.Invalid \<longleftrightarrow> side \<noteq> Side.Invalid"
  by (cases side) (simp_all add: opposite_def)

lemma opposite_ne [simp]: "side \<noteq> Side.Invalid \<Longrightarrow> opposite side \<noteq> side"
  by (cases side) (simp_all add: opposite_def)

lemma distinct_best_first:
  "struct_ok b \<Longrightarrow> distinct (best_first side b)"
proof -
  assume ok: "struct_ok b"
  have "distinct (levels_of s b)" for s
    using Levels_ok_distinct [OF struct_ok_Levels [OF ok], of s] by (simp add: distinct_map)
  from this [of Buy] this [of Sell] show ?thesis
    by (cases side) (simp_all add: best_first_def)
qed

lemma candidate_in_level:
  assumes "c \<in> set (candidates side i p b)" and "side \<noteq> Side.Invalid"
  obtains L where "L \<in> set (levels_of (opposite side) b)" "price L = fst c"
    "snd c \<in> set (orders L)" "order_id (snd c) \<noteq> i" "compatible side p (price L)"
proof -
  from assms(1) obtain L where
    L: "L \<in> set (takeWhile (\<lambda>L. compatible side p (price L)) (best_first side b))"
      "c \<in> set (level_candidates i L)"
    by (auto simp: candidates_def)
  from L(1) have "L \<in> set (best_first side b)" "compatible side p (price L)"
    by (auto dest: set_takeWhileD)
  then show ?thesis
    using that [of L] L(2) set_best_first [OF assms(2), of b]
    by (auto simp: level_candidates_def)
qed

lemma candidate_located:
  assumes ok: "struct_ok b" and c: "c \<in> set (candidates side i p b)"
    and side: "side \<noteq> Side.Invalid"
  shows "orders_by_id b (order_id (snd c)) = Some (opposite side, fst c)"
    and "level (snd c) = Some (opposite side, fst c)"
    and "qty (snd c) \<noteq> 0"
proof -
  from candidate_in_level [OF c side] obtain L where
    L: "L \<in> set (levels_of (opposite side) b)" "price L = fst c" "snd c \<in> set (orders L)"
    by metis
  have "holds (levels_of (opposite side) b) (fst c) (order_id (snd c))"
    using L by (auto simp: holds_def)
  then show "orders_by_id b (order_id (snd c)) = Some (opposite side, fst c)"
    using struct_ok_index [OF ok] by simp
  have "Level_ok (opposite side) L"
    using struct_ok_Levels [OF ok, of "opposite side"] L(1) by (simp add: Levels_ok_def)
  then show "level (snd c) = Some (opposite side, fst c)" "qty (snd c) \<noteq> 0"
    using L(2,3) by (auto simp: Level_ok_def)
qed

lemma distinct_level_candidates:
  assumes "distinct Ls" and "\<forall>L \<in> set Ls. distinct (map order_id (orders L))"
    and "\<forall>L \<in> set Ls. \<forall>L' \<in> set Ls. L \<noteq> L' \<longrightarrow>
          order_id ` set (orders L) \<inter> order_id ` set (orders L') = {}"
  shows "distinct (map (\<lambda>c. order_id (snd c)) (concat (map (level_candidates i) Ls)))"
  using assms
proof (induction Ls)
  case Nil
  then show ?case by simp
next
  case (Cons L Ls)
  have 1: "distinct (map (\<lambda>c. order_id (snd c)) (level_candidates i L))"
    using Cons.prems(2) by (simp add: level_candidates_def comp_def distinct_map_filter)
  have 2: "distinct (map (\<lambda>c. order_id (snd c)) (concat (map (level_candidates i) Ls)))"
    using Cons by auto
  have 3: "(\<lambda>c. order_id (snd c)) ` set (level_candidates i L')
      \<subseteq> order_id ` set (orders L')" for L'
    by (auto simp: level_candidates_def)
  have "order_id ` set (orders L) \<inter> order_id ` set (orders L') = {}" if "L' \<in> set Ls" for L'
  proof -
    have "L \<noteq> L'" using Cons.prems(1) that by auto
    then show ?thesis using Cons.prems(3) that by simp
  qed
  then have disj: "order_id ` set (orders L) \<inter> (\<Union>L' \<in> set Ls. order_id ` set (orders L')) = {}"
    by blast
  have 5: "(\<lambda>c. order_id (snd c)) ` set (concat (map (level_candidates i) Ls))
      \<subseteq> (\<Union>L' \<in> set Ls. order_id ` set (orders L'))"
    using 3 by (simp add: image_UN UN_mono)
  have 4: "(\<lambda>c. order_id (snd c)) ` set (level_candidates i L)
      \<inter> (\<lambda>c. order_id (snd c)) ` set (concat (map (level_candidates i) Ls)) = {}"
    using 3 [of L] 5 disj by blast
  show ?case
    using 1 2 4 by simp
qed

lemma distinct_candidates:
  assumes ok: "struct_ok b"
  shows "distinct (map (\<lambda>c. order_id (snd c)) (candidates side i p b))"
proof (cases "side = Side.Invalid")
  case True
  then show ?thesis by (simp add: candidates_def best_first_def)
next
  case False
  let ?Ls = "takeWhile (\<lambda>L. compatible side p (price L)) (best_first side b)"
  have sub: "set ?Ls \<subseteq> set (levels_of (opposite side) b)"
    using set_best_first [OF False, of b] by (auto dest: set_takeWhileD)
  have lok: "Levels_ok (opposite side) (levels_of (opposite side) b)"
    using struct_ok_Levels [OF ok] .
  have "distinct ?Ls"
    using distinct_best_first [OF ok] by (rule distinct_takeWhile)
  moreover have "\<forall>L \<in> set ?Ls. distinct (map order_id (orders L))"
    using sub lok by (auto simp: Levels_ok_def Level_ok_def)
  moreover have "\<forall>L \<in> set ?Ls. \<forall>L' \<in> set ?Ls. L \<noteq> L' \<longrightarrow>
          order_id ` set (orders L) \<inter> order_id ` set (orders L') = {}"
  proof (intro ballI impI)
    fix L L' assume *: "L \<in> set ?Ls" "L' \<in> set ?Ls" "L \<noteq> L'"
    then have in_b: "L \<in> set (levels_of (opposite side) b)" "L' \<in> set (levels_of (opposite side) b)"
      using sub by auto
    have "price L \<noteq> price L'"
      using in_b *(3) Levels_ok_distinct [OF lok] by (auto simp: distinct_map dest: inj_onD)
    moreover have "price L = price L'"
      if "j \<in> order_id ` set (orders L)" "j \<in> order_id ` set (orders L')" for j
      using struct_ok_unique [OF ok, of "opposite side" "price L" j "opposite side" "price L'"]
        that in_b by (auto simp: holds_def)
    ultimately show "order_id ` set (orders L) \<inter> order_id ` set (orders L') = {}"
      by blast
  qed
  ultimately show ?thesis
    unfolding candidates_def by (rule distinct_level_candidates)
qed

subsection \<open>The result of a match\<close>

lemma match_trades_located:
  assumes ok: "struct_ok b" and side: "side \<noteq> Side.Invalid"
    and t: "t \<in> set (fst (fill_candidates i p q (candidates side i p b)))"
  shows "orders_by_id b (order_id (passive_order t)) = Some (opposite side, passive_price t)"
    and "level (passive_order t) = Some (opposite side, passive_price t)"
    and "qty (passive_order t) \<noteq> 0"
    and "order_id (passive_order t) \<noteq> i"
proof -
  have c: "(passive_price t, passive_order t) \<in> set (candidates side i p b)"
    using fill_candidates_trade [OF t] by simp
  show "orders_by_id b (order_id (passive_order t)) = Some (opposite side, passive_price t)"
    "level (passive_order t) = Some (opposite side, passive_price t)"
    "qty (passive_order t) \<noteq> 0"
    using candidate_located [OF ok c side] by simp_all
  show "order_id (passive_order t) \<noteq> i"
    using candidate_in_level [OF c side] by (metis snd_conv)
qed

lemma match_trades_distinct:
  assumes ok: "struct_ok b"
  shows "distinct (map (\<lambda>t. order_id (passive_order t))
            (fst (fill_candidates i p q (candidates side i p b))))"
proof -
  let ?ts = "fst (fill_candidates i p q (candidates side i p b))"
  have "map (\<lambda>t. order_id (passive_order t)) ?ts
      = map (\<lambda>c. order_id (snd c)) (map (\<lambda>t. (passive_price t, passive_order t)) ?ts)"
    by (simp add: comp_def)
  also have "\<dots> = take (length ?ts) (map (\<lambda>c. order_id (snd c)) (candidates side i p b))"
    by (simp only: fill_candidates_prefix take_map)
  finally show ?thesis
    using distinct_candidates [OF ok, of side i p] by (simp add: distinct_take)
qed

lemma Book_match_result:
  fixes b :: Book and side :: Side and i :: OrderID and p :: Price and q :: Qty
  assumes ok: "struct_ok b" and side: "side \<noteq> Side.Invalid"
  defines "r \<equiv> fill_candidates i p q (candidates side i p b)"
  shows "fst (Book_match side i q p b []) = snd r"
    and "snd (snd (Book_match side i q p b [])) = map normalized (fst r)"
    and "levels_of s (fst (snd (Book_match side i q p b []))) =
      (if s = opposite side
       then filter (\<lambda>L. orders L \<noteq> []) (map (fold fill_level (fst r)) (levels_of s b))
       else levels_of s b)"
    and "orders_by_id (fst (snd (Book_match side i q p b []))) =
      (\<lambda>j. if \<exists>t \<in> set (fst r). fully_filled t \<and> order_id (passive_order t) = j then None
           else orders_by_id b j)"
proof -
  have bm: "Book_match side i q p b [] = (snd r, fill_orders (fst r) b)"
    using side by (simp add: Book_match_def match_walk_fill r_def split_beta)
  show "fst (Book_match side i q p b []) = snd r"
    by (simp add: bm)
  show "snd (snd (Book_match side i q p b [])) = map normalized (fst r)"
    by (simp add: bm fill_orders_trades)
  show "orders_by_id (fst (snd (Book_match side i q p b []))) =
      (\<lambda>j. if \<exists>t \<in> set (fst r). fully_filled t \<and> order_id (passive_order t) = j then None
           else orders_by_id b j)"
    by (simp add: bm fill_orders_index)
  have pre: "\<forall>t \<in> set (fst r).
      orders_by_id b (order_id (passive_order t)) = Some (opposite side, passive_price t)
      \<and> level (passive_order t) = Some (opposite side, passive_price t)"
    using match_trades_located [OF ok side] by (simp add: r_def)
  show "levels_of s (fst (snd (Book_match side i q p b []))) =
      (if s = opposite side
       then filter (\<lambda>L. orders L \<noteq> []) (map (fold fill_level (fst r)) (levels_of s b))
       else levels_of s b)"
    using fill_orders_closed [OF ok _ pre, of s] side match_trades_distinct [OF ok, of i p q side]
    by (simp add: bm r_def)
qed

subsection \<open>The book stays uncrossed\<close>

lemma takeWhile_filter_sorted:
  assumes "sorted_wrt R xs" and "\<And>x y. R x y \<Longrightarrow> P y \<Longrightarrow> P x"
  shows "takeWhile P xs = filter P xs"
  using assms
proof (induction xs)
  case Nil
  then show ?case by simp
next
  case (Cons x xs)
  show ?case
  proof (cases "P x")
    case True
    then show ?thesis using Cons by simp
  next
    case False
    then have "\<forall>y \<in> set xs. \<not> P y"
      using Cons.prems by auto
    then show ?thesis using False by (simp add: filter_empty_conv)
  qed
qed

lemma compatible_prefix:
  assumes ok: "struct_ok b"
  shows "takeWhile (\<lambda>L. compatible side p (price L)) (best_first side b)
    = filter (\<lambda>L. compatible side p (price L)) (best_first side b)"
proof (cases side)
  case Buy
  have "sorted_wrt (>) (map price (sell_levels b))"
    using Levels_ok_sorted [OF struct_ok_Levels [OF ok, of Sell]] by simp
  then have "sorted_wrt (\<lambda>L L'. price L < price L') (rev (sell_levels b))"
    by (simp add: sorted_wrt_rev sorted_wrt_map)
  then show ?thesis
    using Buy
    by (intro takeWhile_filter_sorted [where R = "\<lambda>L L'. price L < price L'"])
      (auto simp: best_first_def compatible_def)
next
  case Sell
  have "sorted_wrt (>) (map price (buy_levels b))"
    using Levels_ok_sorted [OF struct_ok_Levels [OF ok, of Buy]] by simp
  then have "sorted_wrt (\<lambda>L L'. price L > price L') (buy_levels b)"
    by (simp add: sorted_wrt_map)
  then show ?thesis
    using Sell
    by (intro takeWhile_filter_sorted [where R = "\<lambda>L L'. price L > price L'"])
      (auto simp: best_first_def compatible_def)
next
  case Invalid
  then show ?thesis by (simp add: best_first_def)
qed

lemma candidates_complete:
  assumes ok: "struct_ok b" and side: "side \<noteq> Side.Invalid"
    and L: "L \<in> set (levels_of (opposite side) b)" "compatible side p (price L)"
    and ord: "ord \<in> set (orders L)" "order_id ord \<noteq> i"
  shows "(price L, ord) \<in> set (candidates side i p b)"
proof -
  have "L \<in> set (takeWhile (\<lambda>L. compatible side p (price L)) (best_first side b))"
    using L set_best_first [OF side, of b] by (simp add: compatible_prefix [OF ok])
  moreover have "(price L, ord) \<in> set (level_candidates i L)"
    using ord by (simp add: level_candidates_def)
  ultimately show ?thesis
    unfolding candidates_def by auto
qed

text \<open>
  When a match leaves a quantity, every compatible order of the opposite side has been
  consumed, the orders with the aggressive identifier apart.
\<close>

lemma match_leaves_only_self:
  fixes b :: Book
  assumes ok: "struct_ok b" and side: "side \<noteq> Side.Invalid"
    and leaves: "fst (Book_match side i q p b []) \<noteq> 0"
    and L': "L' \<in> set (levels_of (opposite side) (fst (snd (Book_match side i q p b []))))"
      "compatible side p (price L')"
  shows "order_id ` set (orders L') = {i}"
proof -
  let ?b' = "fst (snd (Book_match side i q p b []))"
  let ?r = "fill_candidates i p q (candidates side i p b)"
  note res = Book_match_result [OF ok side, where i = i and p = p and q = q]
  have ok': "struct_ok ?b'" using ok by (rule struct_ok_match)
  have ne: "orders L' \<noteq> []"
    using struct_ok_nonempty [OF ok'] L'(1) by blast
  have all: "fst ?r = map (\<lambda>c. make_Trade i p (qty (snd c)) c) (candidates side i p b)"
    using leaves res(1) by (intro fill_candidates_all) simp
  have "order_id ord' = i" if ord': "ord' \<in> set (orders L')" for ord'
  proof (rule ccontr)
    assume ni: "order_id ord' \<noteq> i"
    let ?j = "order_id ord'"
    have "holds (levels_of (opposite side) ?b') (price L') ?j"
      using L'(1) ord' by (auto simp: holds_def)
    then have live': "orders_by_id ?b' ?j = Some (opposite side, price L')"
      using struct_ok_index [OF ok'] by simp
    then have live: "orders_by_id b ?j = Some (opposite side, price L')"
      and nofill: "\<not> (\<exists>t \<in> set (fst ?r). fully_filled t \<and> order_id (passive_order t) = ?j)"
      unfolding res(4) by (auto split: if_splits)
    from live obtain L ord where L: "L \<in> set (levels_of (opposite side) b)"
        "price L = price L'" "ord \<in> set (orders L)" "order_id ord = ?j"
      using struct_ok_index [OF ok, of ?j "opposite side" "price L'"] by (auto simp: holds_def)
    have "(price L, ord) \<in> set (candidates side i p b)"
      using candidates_complete [OF ok side L(1) _ L(3)] L(2,4) L'(2) ni by simp
    then have "make_Trade i p (qty ord) (price L, ord) \<in> set (fst ?r)"
      unfolding all by (simp add: image_iff) (metis snd_conv)
    moreover have "fully_filled (make_Trade i p (qty ord) (price L, ord))"
      by (simp add: fully_filled_def make_Trade_def new_Order_def)
    moreover have "order_id (passive_order (make_Trade i p (qty ord) (price L, ord))) = ?j"
      using L(4) by (simp add: make_Trade_def)
    ultimately show False using nofill by blast
  qed
  then show ?thesis using ne by (cases "orders L'") auto
qed

lemma uncrossed_prices:
  "uncrossed b \<longleftrightarrow>
     (\<forall>pb \<in> price ` set (levels_of Buy b). \<forall>ps \<in> price ` set (levels_of Sell b). pb < ps)"
  by (auto simp: uncrossed_def)

lemma uncrossed_subset:
  assumes "uncrossed b"
    and "\<And>s. price ` set (levels_of s b') \<subseteq> price ` set (levels_of s b)"
  shows "uncrossed b'"
  unfolding uncrossed_def
proof (intro ballI)
  fix B S assume "B \<in> set (buy_levels b')" "S \<in> set (sell_levels b')"
  then have "price B \<in> price ` set (levels_of Buy b)" "price S \<in> price ` set (levels_of Sell b)"
    using assms(2) [of Buy] assms(2) [of Sell] by auto
  then obtain B0 S0 where "B0 \<in> set (buy_levels b)" "price B0 = price B"
      "S0 \<in> set (sell_levels b)" "price S0 = price S"
    by auto
  then show "price B < price S"
    using assms(1) unfolding uncrossed_def by metis
qed

lemma set_erase_if_empty_subset: "set (erase_if_empty p Ls) \<subseteq> set Ls"
  by (auto simp: erase_if_empty_def erase_level_def split: option.splits)

lemma prices_erase_update:
  assumes "\<And>L. price (f L) = price L"
  shows "price ` set (erase_if_empty p0 (update_level p0 f Ls)) \<subseteq> price ` set Ls"
proof -
  have "price ` set (erase_if_empty p0 (update_level p0 f Ls))
      \<subseteq> price ` set (update_level p0 f Ls)"
    by (rule image_mono) (rule set_erase_if_empty_subset)
  also have "\<dots> = set (map price (update_level p0 f Ls))"
    by simp
  also have "\<dots> = price ` set Ls"
    by (simp only: prices_update_level [of f, OF assms] set_map)
  finally show ?thesis .
qed

lemma prices_cancel:
  "price ` set (levels_of s (Book_cancel i b)) \<subseteq> price ` set (levels_of s b)"
proof (cases "orders_by_id b i")
  case None
  then show ?thesis by (simp add: Book_cancel_def)
next
  case (Some a)
  obtain s0 p0 where a: "a = (s0, p0)" by (cases a)
  have eq: "Book_cancel i b =
      (map_levels s0 (\<lambda>Ls. erase_if_empty p0 (update_level p0 (Level_cancel i) Ls)) b)
        \<lparr>orders_by_id := (orders_by_id b)(i := None)\<rparr>"
    using Some a by (simp add: Book_cancel_def)
  show ?thesis
  proof (cases "s0 = Side.Invalid \<or> s \<noteq> s0")
    case True
    then show ?thesis
      unfolding eq by (cases "s0 = Side.Invalid") (simp_all add: levels_of_map_levels)
  next
    case False
    then show ?thesis
      unfolding eq using prices_erase_update [of "Level_cancel i" p0 "levels_of s0 b"]
      by (simp add: levels_of_map_levels)
  qed
qed

lemma uncrossed_cancel: "uncrossed b \<Longrightarrow> uncrossed (Book_cancel i b)"
  by (rule uncrossed_subset [OF _ prices_cancel])

lemma fold_fill_level_price [simp]: "price (fold fill_level ts L) = price L"
  by (induction ts arbitrary: L) simp_all

lemma prices_match:
  assumes "struct_ok b"
  shows "price ` set (levels_of s (fst (snd (Book_match side i q p b [])))) \<subseteq>
    price ` set (levels_of s b)"
proof (cases "side = Side.Invalid")
  case True
  then show ?thesis by (simp add: Book_match_def)
next
  case False
  show ?thesis
    unfolding Book_match_result(3) [OF assms False] by auto
qed

lemma uncrossed_match:
  "struct_ok b \<Longrightarrow> uncrossed b \<Longrightarrow> uncrossed (fst (snd (Book_match side i q p b [])))"
  by (rule uncrossed_subset [OF _ prices_match])

lemma uncrossed_insert:
  assumes unc: "uncrossed b" and side: "side \<noteq> Side.Invalid"
    and same: "price ` set (levels_of side b') \<subseteq> insert p (price ` set (levels_of side b))"
    and opp: "price ` set (levels_of (opposite side) b')
        \<subseteq> price ` set (levels_of (opposite side) b)"
    and nc: "\<And>X. X \<in> set (levels_of (opposite side) b') \<Longrightarrow> \<not> compatible side p (price X)"
  shows "uncrossed b'"
  unfolding uncrossed_def
proof (intro ballI)
  fix B S assume B: "B \<in> set (buy_levels b')" and S: "S \<in> set (sell_levels b')"
  show "price B < price S"
  proof (cases side)
    case Buy
    from S opp Buy obtain S0 where S0: "S0 \<in> set (sell_levels b)" "price S0 = price S"
      by (auto simp: opposite_def)
    from B same Buy consider "price B = p"
      | B0 where "B0 \<in> set (buy_levels b)" "price B0 = price B"
      by auto
    then show ?thesis
    proof cases
      case 1
      then show ?thesis
        using nc [of S] S Buy by (simp add: opposite_def compatible_def not_le)
    next
      case 2
      then show ?thesis
        using unc S0 unfolding uncrossed_def by metis
    qed
  next
    case Sell
    from B opp Sell obtain B0 where B0: "B0 \<in> set (buy_levels b)" "price B0 = price B"
      by (auto simp: opposite_def)
    from S same Sell consider "price S = p"
      | S0 where "S0 \<in> set (sell_levels b)" "price S0 = price S"
      by auto
    then show ?thesis
    proof cases
      case 1
      then show ?thesis
        using nc [of B] B Sell by (simp add: opposite_def compatible_def not_le)
    next
      case 2
      then show ?thesis
        using unc B0 unfolding uncrossed_def by metis
    qed
  next
    case Invalid
    then show ?thesis using side by simp
  qed
qed

lemma prices_emplace_update:
  assumes "\<And>L. price (f L) = price L"
  shows "price ` set (update_level p f (emplace p Ls)) = insert p (price ` set Ls)"
proof -
  have "price ` set (update_level p f (emplace p Ls))
      = set (map price (update_level p f (emplace p Ls)))"
    by simp
  also have "\<dots> = price ` set (emplace p Ls)"
    by (simp only: prices_update_level [of f, OF assms] set_map)
  finally show ?thesis by (simp add: emplace_prices_set)
qed

lemma levels_of_add_levels:
  "s \<noteq> Side.Invalid \<Longrightarrow>
   levels_of s' (add_levels s i q p b) =
     (if s' = s \<and> orders_by_id b i = None
      then update_level p (Level_add (s, p) i q) (emplace p (levels_of s b))
      else levels_of s' b)"
  by (simp add: add_levels_def levels_of_map_levels)

lemma uncrossed_add:
  assumes unc: "uncrossed b" and side: "side \<noteq> Side.Invalid"
    and nc: "\<And>X. X \<in> set (levels_of (opposite side) b) \<Longrightarrow> \<not> compatible side p (price X)"
  shows "uncrossed (add_levels side i q p b)"
proof (rule uncrossed_insert [OF unc side, of _ p])
  show "price ` set (levels_of side (add_levels side i q p b))
      \<subseteq> insert p (price ` set (levels_of side b))"
    using prices_emplace_update [of "Level_add (side, p) i q" p "levels_of side b"] side
    by (auto simp: levels_of_add_levels)
  show "price ` set (levels_of (opposite side) (add_levels side i q p b))
      \<subseteq> price ` set (levels_of (opposite side) b)"
    using side by (simp add: levels_of_add_levels)
  show "\<not> compatible side p (price X)"
    if "X \<in> set (levels_of (opposite side) (add_levels side i q p b))" for X
    using that nc side by (simp add: levels_of_add_levels)
qed

lemma modify_levels_relocate:
  assumes ok: "struct_ok b" and s: "s \<noteq> Side.Invalid"
    and live: "orders_by_id b i = Some (s0, p0)" and ne: "\<not> (s0 = s \<and> p0 = p)"
  obtains L ord where "L \<in> set (levels_of s0 b)" "price L = p0"
    "find_order i (orders L) = Some ord"
    "\<And>s'. levels_of s' (modify_levels s i q p b) =
        (if s' = s \<and> s' = s0
         then erase_if_empty p0 (update_level p (splice_in (s, p) ord q)
                (update_level p0 (splice_out i (qty ord)) (emplace p (levels_of s b))))
         else if s' = s then update_level p (splice_in (s, p) ord q) (emplace p (levels_of s b))
         else if s' = s0
         then erase_if_empty p0 (update_level p0 (splice_out i (qty ord)) (levels_of s0 b))
         else levels_of s' b)"
proof -
  from struct_ok_find [OF ok live] obtain L ord where
    L: "find_level p0 (levels_of s0 b) = Some L" "L \<in> set (levels_of s0 b)" "price L = p0"
      "find_order i (orders L) = Some ord"
    by metis
  have s0: "s0 \<noteq> Side.Invalid" using struct_ok_side [OF ok live] .
  let ?out = "update_level p0 (splice_out i (qty ord))"
  let ?in = "update_level p (splice_in (s, p) ord q)"
  have eq: "modify_levels s i q p b = (map_levels s0 (erase_if_empty p0) (map_levels s ?in
        (map_levels s0 ?out (map_levels s (emplace p) b))))
          \<lparr>orders_by_id := (orders_by_id b)(i \<mapsto> (s, p))\<rparr>"
    using ne live L by (auto simp: modify_levels_def Let_def)
  have "levels_of s' (modify_levels s i q p b) =
        (if s' = s \<and> s' = s0 then erase_if_empty p0 (?in (?out (emplace p (levels_of s b))))
         else if s' = s then ?in (emplace p (levels_of s b))
         else if s' = s0 then erase_if_empty p0 (?out (levels_of s0 b))
         else levels_of s' b)" for s'
    unfolding eq using s s0 by (auto simp: levels_of_map_levels)
  then show ?thesis
    using that [of L ord] L by blast
qed

lemma ids_singleton_erase:
  "order_id ` set os = {i} \<Longrightarrow> erase_order i os = []"
  by (auto simp: erase_order_def filter_empty_conv)

lemma uncrossed_modify_levels:
  assumes ok: "struct_ok b" and unc: "uncrossed b" and side: "side \<noteq> Side.Invalid"
    and self: "\<And>X. X \<in> set (levels_of (opposite side) b) \<Longrightarrow> compatible side p (price X)
        \<Longrightarrow> order_id ` set (orders X) = {i}"
  shows "uncrossed (modify_levels side i q p b)"
proof (cases "orders_by_id b i")
  case None
  then show ?thesis using unc by (simp add: modify_levels_def)
next
  case (Some a)
  obtain s0 p0 where a: "a = (s0, p0)" by (cases a)
  have live: "orders_by_id b i = Some (s0, p0)" using Some a by simp
  have loc: "holds (levels_of s' b) p' i \<longleftrightarrow> s' = s0 \<and> p' = p0" for s' p'
    using struct_ok_index [OF ok, of i s' p'] live by auto
  show ?thesis
  proof (cases "s0 = side \<and> p0 = p")
    case True
    from struct_ok_find [OF ok live] obtain L ord where
      L: "find_level p0 (levels_of s0 b) = Some L" "price L = p0"
        "find_order i (orders L) = Some ord"
      by metis
    have eq: "modify_levels side i q p b =
        (if q = qty ord then b else map_levels side (update_level p (Level_modify i q)) b)"
      using True live L by (simp add: modify_levels_def)
    have "price ` set (levels_of s (map_levels side (update_level p (Level_modify i q)) b))
        \<subseteq> price ` set (levels_of s b)" for s
    proof -
      have "price ` set (update_level p (Level_modify i q) Ls) = price ` set Ls" for Ls
        using arg_cong [OF prices_update_level [of "Level_modify i q" p Ls], of set] by simp
      then show ?thesis using side by (simp add: levels_of_map_levels)
    qed
    then show ?thesis
      unfolding eq using unc uncrossed_subset [OF unc] by simp
  next
    case False
    from modify_levels_relocate [OF ok side live False, of q] obtain L ord where
      L: "L \<in> set (levels_of s0 b)" "price L = p0" "find_order i (orders L) = Some ord"
      and lv: "\<And>s'. levels_of s' (modify_levels side i q p b) =
        (if s' = side \<and> s' = s0
         then erase_if_empty p0 (update_level p (splice_in (side, p) ord q)
                (update_level p0 (splice_out i (qty ord)) (emplace p (levels_of side b))))
         else if s' = side
         then update_level p (splice_in (side, p) ord q) (emplace p (levels_of side b))
         else if s' = s0
         then erase_if_empty p0 (update_level p0 (splice_out i (qty ord)) (levels_of s0 b))
         else levels_of s' b)"
      by metis
    let ?b' = "modify_levels side i q p b"
    show ?thesis
    proof (rule uncrossed_insert [OF unc side, of _ p])
      show "price ` set (levels_of side ?b') \<subseteq> insert p (price ` set (levels_of side b))"
      proof (cases "s0 = side")
        case True
        let ?U = "update_level p (splice_in (side, p) ord q)
            (update_level p0 (splice_out i (qty ord)) (emplace p (levels_of side b)))"
        have "map price ?U = map price (emplace p (levels_of side b))"
          by (simp add: prices_update_level)
        then have "price ` set ?U = insert p (price ` set (levels_of side b))"
          using emplace_prices_set [of p "levels_of side b"] by (metis list.set_map)
        then show ?thesis
          using True set_erase_if_empty_subset [of p0 ?U] by (auto simp: lv)
      next
        case False
        then show ?thesis
          using prices_emplace_update [of "splice_in (side, p) ord q" p "levels_of side b"]
          by (simp add: lv)
      qed
      have opp_levels: "levels_of (opposite side) ?b' =
          (if s0 = opposite side
           then erase_if_empty p0 (update_level p0 (splice_out i (qty ord)) (levels_of s0 b))
           else levels_of (opposite side) b)"
        using side by (simp add: lv)
      show "price ` set (levels_of (opposite side) ?b')
          \<subseteq> price ` set (levels_of (opposite side) b)"
        using prices_erase_update [of "splice_out i (qty ord)" p0 "levels_of s0 b"]
        by (auto simp: opp_levels)
      show "\<not> compatible side p (price X)" if X: "X \<in> set (levels_of (opposite side) ?b')" for X
      proof
        assume c: "compatible side p (price X)"
        show False
        proof (cases "s0 = opposite side")
          case False
          then have "X \<in> set (levels_of (opposite side) b)"
            using X by (simp add: opp_levels)
          then have "holds (levels_of (opposite side) b) (price X) i"
            using self [OF _ c] by (auto simp: holds_def)
          then show False using loc False by simp
        next
          case True
          let ?U = "update_level p0 (splice_out i (qty ord)) (levels_of s0 b)"
          have d: "distinct (map price ?U)"
            using Levels_ok_distinct [OF struct_ok_Levels [OF ok], of s0]
            by (simp add: prices_update_level)
          have X': "X \<in> set ?U" "\<not> (price X = p0 \<and> orders X = [])"
            using X True set_erase_if_empty [OF d, of p0] by (auto simp: opp_levels)
          from X'(1) consider "X \<in> set (levels_of s0 b)" "price X \<noteq> p0"
            | X0 where "X0 \<in> set (levels_of s0 b)" "price X0 = p0"
                "X = splice_out i (qty ord) X0"
            by (auto simp: set_update_level)
          then show False
          proof cases
            case 1
            then have "holds (levels_of s0 b) (price X) i"
              using self [of X] c True by (auto simp: holds_def)
            then show False using loc 1(2) by simp
          next
            case 2
            then have "order_id ` set (orders X0) = {i}"
              using self [of X0] c True by simp
            then have "orders X = []"
              using 2(3) by (simp add: ids_singleton_erase)
            then show False using X'(2) 2 by simp
          qed
        qed
      qed
    qed
  qed
qed

subsection \<open>Every reachable book is well formed\<close>

lemma Book_match_Invalid [simp]: "Book_match Side.Invalid i q p b [] = (q, b, [])"
  by (simp add: Book_match_def)

lemma Book_ok_empty: "Book_ok empty_Book"
  unfolding Book_ok_def
  by (rule conjI [OF struct_ok_empty]) (simp add: uncrossed_def empty_Book_def)

lemma Book_ok_clear: "Book_ok (Book_clear b)"
  unfolding Book_ok_def
  by (rule conjI [OF struct_ok_clear]) (simp add: uncrossed_def Book_clear_def)

lemma Book_ok_cancel: "Book_ok b \<Longrightarrow> Book_ok (Book_cancel i b)"
  by (simp add: Book_ok_def struct_ok_cancel uncrossed_cancel)

lemma Book_ok_match: "Book_ok b \<Longrightarrow> Book_ok (fst (snd (Book_match side i q p b [])))"
  by (simp add: Book_ok_def struct_ok_match uncrossed_match)

lemma match_self_holds:
  assumes ok: "struct_ok b" and side: "side \<noteq> Side.Invalid"
    and leaves: "fst (Book_match side i q p b []) \<noteq> 0"
    and X: "X \<in> set (levels_of (opposite side) (fst (snd (Book_match side i q p b []))))"
      "compatible side p (price X)"
  shows "orders_by_id (fst (snd (Book_match side i q p b []))) i = Some (opposite side, price X)"
proof -
  let ?b' = "fst (snd (Book_match side i q p b []))"
  have "order_id ` set (orders X) = {i}"
    using match_leaves_only_self [OF ok side leaves X] .
  then have "holds (levels_of (opposite side) ?b') (price X) i"
    using X(1) by (auto simp: holds_def)
  then show ?thesis
    using struct_ok_index [OF struct_ok_match [OF ok]] by simp
qed

lemma Book_ok_handle_add:
  assumes ok: "Book_ok b" and side: "side \<noteq> Side.Invalid"
  shows "Book_ok (book (handle_add side t p q i \<lparr>book = b, trades = ts\<rparr>))"
proof -
  let ?m = "Book_match side i q p b []"
  let ?b' = "fst (snd ?m)"
  have sok: "struct_ok b" using ok by (simp add: Book_ok_def)
  have ok': "Book_ok ?b'" using ok by (rule Book_ok_match)
  then have sok': "struct_ok ?b'" and unc': "uncrossed ?b'" by (simp_all add: Book_ok_def)
  show ?thesis
  proof (cases "fst ?m = 0 \<or> t \<noteq> GFD")
    case True
    then show ?thesis
      using ok' by (cases t) (auto simp: handle_add_def split_beta)
  next
    case False
    then have leaves: "fst ?m \<noteq> 0" and t: "t = GFD" by auto
    have eq: "book (handle_add side t p q i \<lparr>book = b, trades = ts\<rparr>)
        = add_levels side i (fst ?m) p ?b'"
      using leaves t side by (cases side) (simp_all add: handle_add_def split_beta Book_add_def)
    have "struct_ok (add_levels side i (fst ?m) p ?b')"
      using sok' side leaves by (rule struct_ok_add_levels)
    moreover have "uncrossed (add_levels side i (fst ?m) p ?b')"
    proof (cases "orders_by_id ?b' i")
      case (Some a)
      then show ?thesis using unc' by (simp add: add_levels_def)
    next
      case None
      show ?thesis
      proof (rule uncrossed_add [OF unc' side])
        fix X assume X: "X \<in> set (levels_of (opposite side) ?b')"
        show "\<not> compatible side p (price X)"
          using match_self_holds [OF sok side leaves X] None by auto
      qed
    qed
    ultimately show ?thesis by (simp add: eq Book_ok_def)
  qed
qed

lemma Book_ok_handle_modify:
  assumes ok: "Book_ok b"
  shows "Book_ok (book (handle_modify i side p q \<lparr>book = b, trades = ts\<rparr>))"
proof (cases "side = Side.Invalid")
  case True
  then show ?thesis
    using ok Book_ok_cancel [OF ok, of i]
    by (simp add: handle_modify_def Book_modify_def)
next
  case side: False
  let ?m = "Book_match side i q p b []"
  let ?b' = "fst (snd ?m)"
  have sok: "struct_ok b" using ok by (simp add: Book_ok_def)
  have ok': "Book_ok ?b'" using ok by (rule Book_ok_match)
  then have sok': "struct_ok ?b'" and unc': "uncrossed ?b'" by (simp_all add: Book_ok_def)
  show ?thesis
  proof (cases "fst ?m = 0")
    case True
    then show ?thesis
      using Book_ok_cancel [OF ok', of i] by (simp add: handle_modify_def split_beta)
  next
    case leaves: False
    have eq: "book (handle_modify i side p q \<lparr>book = b, trades = ts\<rparr>)
        = modify_levels side i (fst ?m) p ?b'"
      using leaves side by (cases side) (simp_all add: handle_modify_def split_beta Book_modify_def)
    have "struct_ok (modify_levels side i (fst ?m) p ?b')"
      using sok' side leaves by (rule struct_ok_modify_levels)
    moreover have "uncrossed (modify_levels side i (fst ?m) p ?b')"
      using match_leaves_only_self [OF sok side leaves]
      by (intro uncrossed_modify_levels [OF sok' unc' side]) auto
    ultimately show ?thesis by (simp add: eq Book_ok_def)
  qed
qed

lemma Book_ok_handle:
  "Book_ok b \<Longrightarrow> Book_ok (book (handle msg \<lparr>book = b, trades = ts\<rparr>))"
  by (cases msg)
    (simp_all add: Book_ok_handle_add Book_ok_handle_modify Book_ok_cancel Book_ok_clear)

lemma reachable_Book_ok: "reachable b \<Longrightarrow> Book_ok b"
  by (induction rule: reachable.induct) (simp_all add: Book_ok_empty Book_ok_handle)

lemma reachable_struct_ok: "reachable b \<Longrightarrow> struct_ok b"
  using reachable_Book_ok by (simp add: Book_ok_def)

lemma reachable_run_messages: "reachable (book (run_messages ms))"
proof -
  have "reachable (book e) \<Longrightarrow> reachable (book (fold handle ms e))" for e
  proof (induction ms arbitrary: e)
    case Nil
    then show ?case by simp
  next
    case (Cons m ms)
    have "reachable (book (handle m \<lparr>book = book e, trades = trades e\<rparr>))"
      using Cons.prems by (rule reachable_handle)
    moreover have "\<lparr>book = book e, trades = trades e\<rparr> = e"
      by (cases e) simp
    ultimately show ?case using Cons.IH by simp
  qed
  then show ?thesis
    by (simp add: run_messages_def new_MatchingEngine_def reachable_empty)
qed

lemma example_cross_best_buy:
  "best_buy (book (run_messages [BuyOrder GFD 1000 10 ''b1'', SellOrder GFD 1100 5 ''s1'']))
     = Some 1000"
  by code_simp

lemma example_cross_best_sell:
  "best_sell (book (run_messages [BuyOrder GFD 1000 10 ''b1'', SellOrder GFD 1100 5 ''s1'']))
     = Some 1100"
  by code_simp

subsection \<open>Orders with the aggressive identifier\<close>

lemma resting_filter_nonempty:
  "resting i (filter (\<lambda>L. orders L \<noteq> []) Ls) = resting i Ls"
  by (induction Ls) (simp_all add: resting_def)

lemma resting_map:
  assumes "\<And>L. L \<in> set Ls \<Longrightarrow> price (g L) = price L
      \<and> filter (\<lambda>ord. order_id ord = i) (orders (g L)) = filter (\<lambda>ord. order_id ord = i) (orders L)"
  shows "resting i (map g Ls) = resting i Ls"
  using assms by (induction Ls) (simp_all add: resting_def)

lemma fill_level_keeps:
  assumes "order_id (passive_order t) \<noteq> i"
  shows "filter (\<lambda>ord. order_id ord = i) (orders (fill_level t L))
    = filter (\<lambda>ord. order_id ord = i) (orders L)"
proof -
  let ?j = "order_id (passive_order t)"
  have 1: "filter (\<lambda>ord. order_id ord = i) (filter (\<lambda>ord. order_id ord \<noteq> ?j) os)
      = filter (\<lambda>ord. order_id ord = i) os" for os
    using assms by (induction os) auto
  have 2: "filter (\<lambda>ord. order_id ord = i)
        (map (\<lambda>ord. if order_id ord = ?j then ord\<lparr>qty := x\<rparr> else ord) os)
      = filter (\<lambda>ord. order_id ord = i) os" for os x
    using assms by (induction os) auto
  show ?thesis
    using 1 [of "orders L"] by (simp add: fill_level_def Let_def 2 del: filter_filter)
qed

lemma fold_fill_level_keeps:
  assumes "\<forall>t \<in> set ts. order_id (passive_order t) \<noteq> i"
  shows "filter (\<lambda>ord. order_id ord = i) (orders (fold fill_level ts L))
    = filter (\<lambda>ord. order_id ord = i) (orders L)"
  using assms by (induction ts arbitrary: L) (simp_all add: fill_level_keeps)

lemma candidates_Invalid [simp]: "candidates Side.Invalid i p b = []"
  by (simp add: candidates_def best_first_def)

lemma match_walk_eq:
  "match_walk side i q p b [] =
     (snd (fill_candidates i p q (candidates side i p b)),
      fst (fill_candidates i p q (candidates side i p b)))"
  by (cases "side = Side.Invalid") (simp_all add: match_walk_fill)

lemma Book_match_trades:
  "snd (snd (Book_match side i q p b [])) = map normalized (snd (match_walk side i q p b []))"
  by (simp add: Book_match_def split_beta fill_orders_trades)

lemma Book_match_book:
  "fst (snd (Book_match side i q p b [])) = fst (fill_orders (snd (match_walk side i q p b [])) b)"
  by (simp add: Book_match_def split_beta)

lemma normalized_simps [simp]:
  "passive_price (normalized t) = passive_price t"
  "order_id (passive_order (normalized t)) = order_id (passive_order t)"
  "aggressive_order (normalized t) = aggressive_order t"
  "aggressive_price (normalized t) = aggressive_price t"
  "qty (passive_order (normalized t)) = qty (aggressive_order t)"
  by (simp_all add: normalized_def)

lemma walk_trade_not_self:
  "t \<in> set (snd (match_walk side i q p b [])) \<Longrightarrow> order_id (passive_order t) \<noteq> i"
proof -
  assume "t \<in> set (snd (match_walk side i q p b []))"
  then have "(passive_price t, passive_order t) \<in> set (candidates side i p b)"
    using fill_candidates_trade [of t i p q "candidates side i p b"] by (simp add: match_walk_eq)
  then show ?thesis
    by (auto simp: candidates_def level_candidates_def)
qed

subsection \<open>An order against its own side\<close>

lemma takeWhile_none: "\<forall>x \<in> set xs. \<not> P x \<Longrightarrow> takeWhile P xs = []"
  by (cases xs) auto

lemma level_side_valid: "L \<in> set (levels_of side b) \<Longrightarrow> side \<noteq> Side.Invalid"
  by (cases side) simp_all

lemma uncrossed_candidates_own:
  assumes unc: "uncrossed b" and L: "L \<in> set (levels_of side b)"
  shows "candidates side i (price L) b = []"
proof (cases side)
  case Buy
  have "\<forall>S \<in> set (rev (sell_levels b)). \<not> compatible Buy (price L) (price S)"
  proof
    fix S assume "S \<in> set (rev (sell_levels b))"
    then have "price L < price S" using unc L Buy by (simp add: uncrossed_def)
    then show "\<not> compatible Buy (price L) (price S)" by (simp add: compatible_def not_le)
  qed
  then have "takeWhile (\<lambda>S. compatible Buy (price L) (price S)) (rev (sell_levels b)) = []"
    by (rule takeWhile_none)
  then show ?thesis by (simp add: candidates_def best_first_def Buy)
next
  case Sell
  have "\<forall>B \<in> set (buy_levels b). \<not> compatible Sell (price L) (price B)"
  proof
    fix B assume "B \<in> set (buy_levels b)"
    then have "price B < price L" using unc L Sell by (simp add: uncrossed_def)
    then show "\<not> compatible Sell (price L) (price B)" by (simp add: compatible_def not_le)
  qed
  then have "takeWhile (\<lambda>B. compatible Sell (price L) (price B)) (buy_levels b) = []"
    by (rule takeWhile_none)
  then show ?thesis by (simp add: candidates_def best_first_def Sell)
next
  case Invalid
  then show ?thesis by simp
qed

lemma resting_order_index:
  assumes ok: "struct_ok b" and L: "L \<in> set (levels_of side b)" and ord: "ord \<in> set (orders L)"
  shows "orders_by_id b (order_id ord) = Some (side, price L)"
proof -
  have "holds (levels_of side b) (price L) (order_id ord)"
    unfolding holds_def using ord by (intro bexI [OF _ L] conjI imageI) simp_all
  then show ?thesis by (simp add: struct_ok_index [OF ok])
qed

lemma modify_same_book:
  assumes ok: "struct_ok b" and L: "L \<in> set (levels_of side b)" and ord: "ord \<in> set (orders L)"
  shows "Book_modify side (order_id ord) (qty ord) (price L) b = b"
proof -
  have side: "side \<noteq> Side.Invalid" using L by (rule level_side_valid)
  have Ls: "Levels_ok side (levels_of side b)" using ok by (rule struct_ok_Levels)
  have LO: "Level_ok side L" using Levels_ok_Level [OF Ls L] .
  have idx: "orders_by_id b (order_id ord) = Some (side, price L)"
    using ok L ord by (rule resting_order_index)
  have fl: "find_level (price L) (levels_of side b) = Some L"
    using find_level_Some [OF Levels_ok_distinct [OF Ls]] L by simp
  have fo: "find_order (order_id ord) (orders L) = Some ord"
    using find_order_distinct LO ord by (simp add: Level_ok_def)
  have "modify_levels side (order_id ord) (qty ord) (price L) b = b"
    by (simp add: modify_levels_def idx fl fo)
  then show ?thesis using side by (cases side) (simp_all add: Book_modify_def)
qed

lemma resting_qty_nonzero:
  assumes ok: "struct_ok b" and L: "L \<in> set (levels_of side b)" and ord: "ord \<in> set (orders L)"
  shows "qty ord \<noteq> 0"
  using Levels_ok_Level [OF struct_ok_Levels [OF ok] L] ord by (simp add: Level_ok_def)

subsection \<open>The queue at a price\<close>

lemma orders_at_simps [simp]:
  "orders_at p [] = []"
  "orders_at p (L # Ls) = (if price L = p then orders L else orders_at p Ls)"
  by (simp_all add: orders_at_def find_level_def)

lemma orders_at_absent: "p \<notin> price ` set Ls \<Longrightarrow> orders_at p Ls = []"
  by (induction Ls) auto

lemma update_level_absent: "p \<notin> price ` set Ls \<Longrightarrow> update_level p f Ls = Ls"
  by (induction Ls) auto

lemma orders_at_add:
  assumes "sorted_wrt (>) (map price Ls)"
  shows "orders_at p' (update_level p (Level_add this i q) (emplace p Ls)) =
    (if p' = p then orders_at p Ls @ [\<lparr>order_id = i, qty = q, level = Some this\<rparr>]
     else orders_at p' Ls)"
  using assms
proof (induction Ls)
  case Nil
  then show ?case by simp
next
  case (Cons L Ls)
  have below: "\<forall>x \<in> set Ls. price x < price L" using Cons.prems by simp
  consider "price L > p" | "price L < p" | "price L = p" by fastforce
  then show ?case
  proof cases
    case 1
    then show ?thesis using Cons by auto
  next
    case 2
    then have "p \<notin> price ` set (L # Ls)" using below by auto
    then have U: "update_level p (Level_add this i q) (L # Ls) = L # Ls"
      and O: "orders_at p (L # Ls) = []"
      by (rule update_level_absent, rule orders_at_absent)
    have em: "emplace p (L # Ls) = new_Level p # L # Ls" using 2 by auto
    have A: "update_level p (Level_add this i q) (emplace p (L # Ls))
        = Level_add this i q (new_Level p) # L # Ls"
      unfolding em update_level_simps(2) [of p "Level_add this i q" "new_Level p" "L # Ls"] U
      by simp
    have "orders_at p' (Level_add this i q (new_Level p) # L # Ls) =
        (if p' = p then [\<lparr>order_id = i, qty = q, level = Some this\<rparr>]
         else orders_at p' (L # Ls))"
      by auto
    then show ?thesis unfolding A O by simp
  next
    case 3
    then have "p \<notin> price ` set Ls" using below by auto
    then have "update_level p (Level_add this i q) Ls = Ls" by (rule update_level_absent)
    then show ?thesis using 3 by simp
  qed
qed

lemma add_levels_fresh:
  assumes ok: "struct_ok b" and side: "side \<noteq> Side.Invalid" and fresh: "orders_by_id b i = None"
  shows "orders_by_id (Book_add side i q p b) = (orders_by_id b)(i \<mapsto> (side, p))"
    and "levels_of (opposite side) (Book_add side i q p b) = levels_of (opposite side) b"
    and "orders_at p' (levels_of side (Book_add side i q p b)) =
      (if p' = p then orders_at p (levels_of side b) @ [\<lparr>order_id = i, qty = q, level = Some (side, p)\<rparr>]
       else orders_at p' (levels_of side b))"
proof -
  have ba: "Book_add side i q p b = add_levels side i q p b"
    using side by (cases side) (simp_all add: Book_add_def)
  show "orders_by_id (Book_add side i q p b) = (orders_by_id b)(i \<mapsto> (side, p))"
    using fresh by (simp add: ba add_levels_def)
  show "levels_of (opposite side) (Book_add side i q p b) = levels_of (opposite side) b"
    using side by (simp add: ba levels_of_add_levels)
  have "sorted_wrt (>) (map price (levels_of side b))"
    using Levels_ok_sorted [OF struct_ok_Levels [OF ok]] .
  then show "orders_at p' (levels_of side (Book_add side i q p b)) =
      (if p' = p then orders_at p (levels_of side b) @ [\<lparr>order_id = i, qty = q, level = Some (side, p)\<rparr>]
       else orders_at p' (levels_of side b))"
    using side fresh by (simp add: ba levels_of_add_levels orders_at_add)
qed

lemma Book_add_live: "orders_by_id b i \<noteq> None \<Longrightarrow> Book_add side i q p b = b"
  by (cases side) (auto simp: Book_add_def add_levels_def)

lemma handle_add_eq:
  "handle_add side t p q i \<lparr>book = b, trades = ts0\<rparr> =
     (if fst (Book_match side i q p b []) = 0 \<or> t \<noteq> GFD
      then \<lparr>book = fst (snd (Book_match side i q p b [])),
            trades = snd (snd (Book_match side i q p b []))\<rparr>
      else \<lparr>book = Book_add side i (fst (Book_match side i q p b [])) p
                     (fst (snd (Book_match side i q p b []))),
            trades = snd (snd (Book_match side i q p b []))\<rparr>)"
  by (cases t) (simp_all add: handle_add_def split_beta)

subsection \<open>Extraction from the input stream\<close>

lemma sentry_failed: "failed ist \<Longrightarrow> sentry ist = (False, ist)"
  by (simp add: sentry_def)

lemma read_string_failed: "failed ist \<Longrightarrow> read_string str ist = (str, ist)"
  by (simp add: read_string_def sentry_failed)

lemma read_u64_failed: "failed ist \<Longrightarrow> read_u64 ist = (0, ist)"
  by (simp add: read_u64_def sentry_failed)

lemma dropWhile_spaces:
  "list_all isspace ws \<Longrightarrow> token w \<Longrightarrow> dropWhile isspace (ws @ w @ rest) = w @ rest"
  by (cases w) (simp_all add: token_def list_all_iff dropWhile_append2)

lemma sentry_token:
  assumes "list_all isspace ws" and "token w"
  shows "sentry \<lparr>buf = ws @ w @ rest, failed = False\<rparr>
    = (True, \<lparr>buf = w @ rest, failed = False\<rparr>)"
  using assms(2) by (simp add: sentry_def dropWhile_spaces [OF assms] token_def)

lemma token_split:
  assumes "token w" and "rest = [] \<or> isspace (hd rest)"
  shows "takeWhile (\<lambda>c. \<not> isspace c) (w @ rest) = w"
    and "dropWhile (\<lambda>c. \<not> isspace c) (w @ rest) = rest"
proof -
  have all: "\<And>x. x \<in> set w \<Longrightarrow> \<not> isspace x"
    using assms(1) by (simp add: token_def list_all_iff)
  have r: "takeWhile (\<lambda>c. \<not> isspace c) rest = []" "dropWhile (\<lambda>c. \<not> isspace c) rest = rest"
    using assms(2) by (cases rest; simp)+
  show "takeWhile (\<lambda>c. \<not> isspace c) (w @ rest) = w"
    using all by (simp add: takeWhile_append2 r)
  show "dropWhile (\<lambda>c. \<not> isspace c) (w @ rest) = rest"
    using all by (simp add: dropWhile_append2 r)
qed

lemma read_string_token:
  assumes "list_all isspace ws" and "token w" and "rest = [] \<or> isspace (hd rest)"
  shows "read_string str \<lparr>buf = ws @ w @ rest, failed = False\<rparr>
    = (w, \<lparr>buf = rest, failed = False\<rparr>)"
  by (simp add: read_string_def sentry_token [OF assms(1,2)] token_split [OF assms(2,3)])

lemma spaces_hd: "spaces ws \<Longrightarrow> ws @ rest = [] \<or> isspace (hd (ws @ rest))"
  by (cases ws) (simp_all add: spaces_def)

lemma spaces_all: "spaces ws \<Longrightarrow> list_all isspace ws"
  by (simp add: spaces_def)

lemma not_number_token: "not_number x \<Longrightarrow> token x"
  by (simp add: not_number_def)

lemma read_u64_not_number:
  assumes "list_all isspace ws" and "not_number x"
  shows "read_u64 \<lparr>buf = ws @ x @ rest, failed = False\<rparr>
    = (0, \<lparr>buf = x @ rest, failed = True\<rparr>)"
proof -
  obtain c cs where x: "x = c # cs" and c: "\<not> isdigit c" "c \<noteq> CHR ''+''" "c \<noteq> CHR ''-''"
    using assms(2) by (cases x) (simp_all add: not_number_def token_def)
  note sen = sentry_token [OF assms(1) not_number_token [OF assms(2)], of rest]
  show ?thesis
    unfolding read_u64_def sen using c by (simp add: x)
qed

lemma read_u64_number_failed_or:
  "fst (read_u64 ist) = 0 \<or> fst (read_u64 ist) = - 1 \<or> \<not> failed (snd (read_u64 ist))"
  by (simp add: read_u64_def split_beta Let_def)

lemma number_token: "number p \<Longrightarrow> token p"
proof -
  have "\<not> isspace c" if "isdigit c" for c
    using that by (auto simp: isdigit_def isspace_def)
  then show "number p \<Longrightarrow> token p"
    by (auto simp: number_def token_def list_all_iff)
qed

lemma number_split:
  assumes "number p" and "rest = [] \<or> isspace (hd rest)"
  shows "takeWhile isdigit (p @ rest) = p" and "dropWhile isdigit (p @ rest) = rest"
proof -
  have all: "\<And>x. x \<in> set p \<Longrightarrow> isdigit x"
    using assms(1) by (simp add: number_def list_all_iff)
  have "\<not> isdigit c" if "isspace c" for c
    using that by (auto simp: isdigit_def isspace_def)
  then have r: "takeWhile isdigit rest = []" "dropWhile isdigit rest = rest"
    using assms(2) by (cases rest; auto)+
  show "takeWhile isdigit (p @ rest) = p"
    using all by (simp add: takeWhile_append2 r)
  show "dropWhile isdigit (p @ rest) = rest"
    using all by (simp add: dropWhile_append2 r)
qed

lemma read_u64_number:
  assumes "list_all isspace ws" and "number p" and "rest = [] \<or> isspace (hd rest)"
  shows "snd (read_u64 \<lparr>buf = ws @ p @ rest, failed = False\<rparr>)
    = \<lparr>buf = rest, failed = (2 ^ 64 \<le> digits_value p)\<rparr>"
proof -
  obtain c cs where p: "p = c # cs" and c: "isdigit c"
    using assms(2) by (cases p) (simp_all add: number_def)
  have sign: "c \<noteq> CHR ''+''" "c \<noteq> CHR ''-''"
    using c by (auto simp: isdigit_def)
  have pn: "p \<noteq> []" "hd p \<noteq> CHR ''+''" "hd p \<noteq> CHR ''-''"
    using p sign by simp_all
  note sen = sentry_token [OF assms(1) number_token [OF assms(2)], of rest]
  show ?thesis
    unfolding read_u64_def sen using pn number_split [OF assms(2,3)]
    by (simp add: Let_def)
qed

subsection \<open>The run loop\<close>

lemma run_failed: "failed (istr s) \<Longrightarrow> run s = s"
  by (subst run.simps) (simp add: read_string_failed)

lemma run_step:
  "read_string [] (istr s) = (cmd, ist) \<Longrightarrow> \<not> failed ist \<Longrightarrow>
   run s = run (handle_cmd cmd (s\<lparr>istr := ist\<rparr>))"
  by (subst run.simps) simp

lemma run_token:
  assumes "istr s = \<lparr>buf = ws @ w @ rest, failed = False\<rparr>"
    and "list_all isspace ws" and "token w" and "rest = [] \<or> isspace (hd rest)"
  shows "run s = run (handle_cmd w (s\<lparr>istr := \<lparr>buf = rest, failed = False\<rparr>\<rparr>))"
  by (rule run_step) (simp_all add: assms(1) read_string_token [OF assms(2-4)])

lemma handle_cmd_unknown: "w \<notin> set verbs \<Longrightarrow> handle_cmd w s = s"
  by (simp add: handle_cmd_def verbs_def)

lemma token_verbs:
  "token ''BUY''" "token ''SELL''" "token ''CANCEL''" "token ''MODIFY''"
  "token ''PRINT''" "token ''CLEAR''"
  by code_simp+

subsection \<open>The readers of the fields\<close>

lemma read_TIF_token:
  assumes "istr u = \<lparr>buf = ws @ w @ rest, failed = False\<rparr>"
    and "list_all isspace ws" and "token w" and "rest = [] \<or> isspace (hd rest)"
  shows "snd (read_TIF u) = u\<lparr>istr := \<lparr>buf = rest, failed = False\<rparr>, tif_str := w\<rparr>"
  by (simp add: read_TIF_def assms(1) read_string_token [OF assms(2-4)])

lemma read_Side_token:
  assumes "istr u = \<lparr>buf = ws @ w @ rest, failed = False\<rparr>"
    and "list_all isspace ws" and "token w" and "rest = [] \<or> isspace (hd rest)"
  shows "snd (read_Side u) = u\<lparr>istr := \<lparr>buf = rest, failed = False\<rparr>, side_str := w\<rparr>"
  by (simp add: read_Side_def assms(1) read_string_token [OF assms(2-4)])

lemma read_OrderID_token:
  assumes "istr u = \<lparr>buf = ws @ w @ rest, failed = False\<rparr>"
    and "list_all isspace ws" and "token w" and "rest = [] \<or> isspace (hd rest)"
  shows "read_OrderID u = (w, u\<lparr>istr := \<lparr>buf = rest, failed = False\<rparr>\<rparr>)"
  by (simp add: read_OrderID_def assms(1) read_string_token [OF assms(2-4)])

lemma read_Price_not_number:
  assumes "istr u = \<lparr>buf = ws @ x @ rest, failed = False\<rparr>"
    and "list_all isspace ws" and "not_number x"
  shows "read_Price u = (0, u\<lparr>istr := \<lparr>buf = x @ rest, failed = True\<rparr>\<rparr>)"
  by (simp add: read_Price_def assms(1) read_u64_not_number [OF assms(2,3)])

lemma read_Qty_not_number:
  assumes "istr u = \<lparr>buf = ws @ x @ rest, failed = False\<rparr>"
    and "list_all isspace ws" and "not_number x"
  shows "read_Qty u = (0, u\<lparr>istr := \<lparr>buf = x @ rest, failed = True\<rparr>\<rparr>)"
  by (simp add: read_Qty_def assms(1) read_u64_not_number [OF assms(2,3)])

lemma read_Price_number:
  assumes "istr u = \<lparr>buf = ws @ p @ rest, failed = False\<rparr>"
    and "list_all isspace ws" and "number p" and "rest = [] \<or> isspace (hd rest)"
  shows "snd (read_Price u) = u\<lparr>istr := \<lparr>buf = rest, failed = (2 ^ 64 \<le> digits_value p)\<rparr>\<rparr>"
  using read_u64_number [OF assms(2-4)]
  by (simp add: read_Price_def assms(1) split_beta)

lemma read_failed [simp]:
  "failed (istr u) \<Longrightarrow> read_Price u = (0, u)"
  "failed (istr u) \<Longrightarrow> read_Qty u = (0, u)"
  "failed (istr u) \<Longrightarrow> read_OrderID u = ([], u)"
  by (simp_all add: read_Price_def read_Qty_def read_OrderID_def read_u64_failed
      read_string_failed)

lemma read_Qty_after_number:
  assumes "istr u = \<lparr>buf = ws @ x @ rest, failed = f\<rparr>"
    and "list_all isspace ws" and "not_number x"
  shows "fst (read_Qty u) = 0" and "failed (istr (snd (read_Qty u)))"
    and "matching_engine (snd (read_Qty u)) = matching_engine u"
    and "ostr (snd (read_Qty u)) = ostr u"
    and "tif_str (snd (read_Qty u)) = tif_str u"
    and "side_str (snd (read_Qty u)) = side_str u"
proof -
  have "failed (istr u) \<and> read_Qty u = (0, u)
      \<or> read_Qty u = (0, u\<lparr>istr := \<lparr>buf = x @ rest, failed = True\<rparr>\<rparr>)"
  proof (cases f)
    case True
    then have "failed (istr u)" using assms(1) by simp
    then show ?thesis by simp
  next
    case False
    then show ?thesis using read_Qty_not_number [OF _ assms(2,3)] assms(1) by simp
  qed
  then show "fst (read_Qty u) = 0" and "failed (istr (snd (read_Qty u)))"
    and "matching_engine (snd (read_Qty u)) = matching_engine u"
    and "ostr (snd (read_Qty u)) = ostr u"
    and "tif_str (snd (read_Qty u)) = tif_str u"
    and "side_str (snd (read_Qty u)) = side_str u"
    by auto
qed

subsection \<open>Commands with a field that is not a number\<close>

lemma add_bad_price:
  assumes u: "istr u = \<lparr>buf = ws1 @ t @ ws2 @ x @ rest, failed = False\<rparr>"
    and "spaces ws1" and "token t" and "spaces ws2" and "not_number x"
  shows "handle_cmd ''BUY'' u = u\<lparr>istr := \<lparr>buf = x @ rest, failed = True\<rparr>, tif_str := t\<rparr>"
    and "handle_cmd ''SELL'' u = u\<lparr>istr := \<lparr>buf = x @ rest, failed = True\<rparr>, tif_str := t\<rparr>"
proof -
  let ?u1 = "u\<lparr>istr := \<lparr>buf = ws2 @ x @ rest, failed = False\<rparr>, tif_str := t\<rparr>"
  let ?u2 = "u\<lparr>istr := \<lparr>buf = x @ rest, failed = True\<rparr>, tif_str := t\<rparr>"
  have 1: "snd (read_TIF u) = ?u1"
    using u spaces_all [OF assms(2)] assms(3) spaces_hd [OF assms(4)]
    by (rule read_TIF_token)
  have "read_Price ?u1 = (0, ?u1\<lparr>istr := \<lparr>buf = x @ rest, failed = True\<rparr>\<rparr>)"
    by (rule read_Price_not_number [OF _ spaces_all [OF assms(4)] assms(5)]) simp
  then have 2: "read_Price ?u1 = (0, ?u2)" by simp
  have f: "failed (istr ?u2)" by simp
  have b: "read_BuyOrder u = (BuyOrder (fst (read_TIF u)) 0 0 [], ?u2)"
    unfolding read_BuyOrder_def split_beta Let_def 1 2 fst_conv snd_conv
      read_failed(2) [OF f] read_failed(3) [OF f] by simp
  have s: "read_SellOrder u = (SellOrder (fst (read_TIF u)) 0 0 [], ?u2)"
    unfolding read_SellOrder_def split_beta Let_def 1 2 fst_conv snd_conv
      read_failed(2) [OF f] read_failed(3) [OF f] by simp
  show "handle_cmd ''BUY'' u = ?u2"
    by (simp add: handle_cmd_def b handle_msg_def)
  show "handle_cmd ''SELL'' u = ?u2"
    by (simp add: handle_cmd_def s handle_msg_def)
qed

lemma add_bad_qty:
  assumes u: "istr u = \<lparr>buf = ws1 @ t @ ws2 @ p @ ws3 @ x @ rest, failed = False\<rparr>"
    and "spaces ws1" and "token t" and "spaces ws2" and "number p" and "spaces ws3"
    and "not_number x"
  shows "matching_engine (handle_cmd ''BUY'' u) = matching_engine u
      \<and> ostr (handle_cmd ''BUY'' u) = ostr u \<and> failed (istr (handle_cmd ''BUY'' u))"
    and "matching_engine (handle_cmd ''SELL'' u) = matching_engine u
      \<and> ostr (handle_cmd ''SELL'' u) = ostr u \<and> failed (istr (handle_cmd ''SELL'' u))"
proof -
  let ?u1 = "u\<lparr>istr := \<lparr>buf = ws2 @ p @ ws3 @ x @ rest, failed = False\<rparr>, tif_str := t\<rparr>"
  let ?f = "(2::int) ^ 64 \<le> digits_value p"
  let ?u2 = "u\<lparr>istr := \<lparr>buf = ws3 @ x @ rest, failed = ?f\<rparr>, tif_str := t\<rparr>"
  let ?u3 = "snd (read_Qty ?u2)"
  have 1: "snd (read_TIF u) = ?u1"
    using u spaces_all [OF assms(2)] assms(3) spaces_hd [OF assms(4)]
    by (rule read_TIF_token)
  have "snd (read_Price ?u1)
      = ?u1\<lparr>istr := \<lparr>buf = ws3 @ x @ rest, failed = ?f\<rparr>\<rparr>"
    by (rule read_Price_number [OF _ spaces_all [OF assms(4)] assms(5) spaces_hd [OF assms(6)]])
      simp
  then have 2: "snd (read_Price ?u1) = ?u2" by simp
  have i: "istr ?u2 = \<lparr>buf = ws3 @ x @ rest, failed = ?f\<rparr>" by simp
  note q = read_Qty_after_number [OF i spaces_all [OF assms(6)] assms(7)]
  have o: "read_OrderID ?u3 = ([], ?u3)"
    using q(2) by simp
  have b: "read_BuyOrder u
      = (BuyOrder (fst (read_TIF u)) (fst (read_Price ?u1)) 0 [], ?u3)"
    unfolding read_BuyOrder_def split_beta Let_def 1 2 o q(1) fst_conv snd_conv by simp
  have s: "read_SellOrder u
      = (SellOrder (fst (read_TIF u)) (fst (read_Price ?u1)) 0 [], ?u3)"
    unfolding read_SellOrder_def split_beta Let_def 1 2 o q(1) fst_conv snd_conv by simp
  have "handle_cmd ''BUY'' u = ?u3"
    by (simp add: handle_cmd_def b handle_msg_def)
  then show "matching_engine (handle_cmd ''BUY'' u) = matching_engine u
      \<and> ostr (handle_cmd ''BUY'' u) = ostr u \<and> failed (istr (handle_cmd ''BUY'' u))"
    using q(2-4) by simp
  have "handle_cmd ''SELL'' u = ?u3"
    by (simp add: handle_cmd_def s handle_msg_def)
  then show "matching_engine (handle_cmd ''SELL'' u) = matching_engine u
      \<and> ostr (handle_cmd ''SELL'' u) = ostr u \<and> failed (istr (handle_cmd ''SELL'' u))"
    using q(2-4) by simp
qed

lemma modify_bad_price:
  assumes u: "istr u = \<lparr>buf = ws1 @ i @ ws2 @ sd @ ws3 @ x @ rest, failed = False\<rparr>"
    and "spaces ws1" and "token i" and "spaces ws2" and "token sd" and "spaces ws3"
    and "not_number x"
  shows "handle_cmd ''MODIFY'' u
    = u\<lparr>istr := \<lparr>buf = x @ rest, failed = True\<rparr>, side_str := sd\<rparr>"
proof -
  let ?u1 = "u\<lparr>istr := \<lparr>buf = ws2 @ sd @ ws3 @ x @ rest, failed = False\<rparr>\<rparr>"
  let ?u2 = "u\<lparr>istr := \<lparr>buf = ws3 @ x @ rest, failed = False\<rparr>, side_str := sd\<rparr>"
  let ?u3 = "u\<lparr>istr := \<lparr>buf = x @ rest, failed = True\<rparr>, side_str := sd\<rparr>"
  have 1: "read_OrderID u = (i, ?u1)"
    using u spaces_all [OF assms(2)] assms(3) spaces_hd [OF assms(4)]
    by (rule read_OrderID_token)
  have "snd (read_Side ?u1)
      = ?u1\<lparr>istr := \<lparr>buf = ws3 @ x @ rest, failed = False\<rparr>, side_str := sd\<rparr>"
    by (rule read_Side_token [OF _ spaces_all [OF assms(4)] assms(5) spaces_hd [OF assms(6)]])
      simp
  then have 2: "snd (read_Side ?u1) = ?u2" by simp
  have "read_Price ?u2 = (0, ?u2\<lparr>istr := \<lparr>buf = x @ rest, failed = True\<rparr>\<rparr>)"
    by (rule read_Price_not_number [OF _ spaces_all [OF assms(6)] assms(7)]) simp
  then have 3: "read_Price ?u2 = (0, ?u3)" by simp
  have f: "failed (istr ?u3)" by simp
  have m: "read_ModifyOrder u = (ModifyOrder i (fst (read_Side ?u1)) 0 0, ?u3)"
    unfolding read_ModifyOrder_def split_beta Let_def 1 2 3 fst_conv snd_conv
      read_failed(2) [OF f] by simp
  show ?thesis
    by (simp add: handle_cmd_def m handle_msg_def)
qed

lemma modify_bad_qty:
  assumes u: "istr u = \<lparr>buf = ws1 @ i @ ws2 @ sd @ ws3 @ p @ ws4 @ x @ rest, failed = False\<rparr>"
    and "spaces ws1" and "token i" and "spaces ws2" and "token sd" and "spaces ws3"
    and "number p" and "spaces ws4" and "not_number x"
  shows "matching_engine (handle_cmd ''MODIFY'' u) = matching_engine u
      \<and> ostr (handle_cmd ''MODIFY'' u) = ostr u \<and> failed (istr (handle_cmd ''MODIFY'' u))"
proof -
  let ?u1 = "u\<lparr>istr := \<lparr>buf = ws2 @ sd @ ws3 @ p @ ws4 @ x @ rest, failed = False\<rparr>\<rparr>"
  let ?u2 = "u\<lparr>istr := \<lparr>buf = ws3 @ p @ ws4 @ x @ rest, failed = False\<rparr>, side_str := sd\<rparr>"
  let ?f = "(2::int) ^ 64 \<le> digits_value p"
  let ?u3 = "u\<lparr>istr := \<lparr>buf = ws4 @ x @ rest, failed = ?f\<rparr>, side_str := sd\<rparr>"
  let ?u4 = "snd (read_Qty ?u3)"
  have 1: "read_OrderID u = (i, ?u1)"
    using u spaces_all [OF assms(2)] assms(3) spaces_hd [OF assms(4)]
    by (rule read_OrderID_token)
  have "snd (read_Side ?u1)
      = ?u1\<lparr>istr := \<lparr>buf = ws3 @ p @ ws4 @ x @ rest, failed = False\<rparr>, side_str := sd\<rparr>"
    by (rule read_Side_token [OF _ spaces_all [OF assms(4)] assms(5) spaces_hd [OF assms(6)]])
      simp
  then have 2: "snd (read_Side ?u1) = ?u2" by simp
  have "snd (read_Price ?u2)
      = ?u2\<lparr>istr := \<lparr>buf = ws4 @ x @ rest, failed = ?f\<rparr>\<rparr>"
    by (rule read_Price_number [OF _ spaces_all [OF assms(6)] assms(7) spaces_hd [OF assms(8)]])
      simp
  then have 3: "snd (read_Price ?u2) = ?u3" by simp
  have i: "istr ?u3 = \<lparr>buf = ws4 @ x @ rest, failed = ?f\<rparr>" by simp
  note q = read_Qty_after_number [OF i spaces_all [OF assms(8)] assms(9)]
  have m: "read_ModifyOrder u
      = (ModifyOrder i (fst (read_Side ?u1)) (fst (read_Price ?u2)) 0, ?u4)"
    unfolding read_ModifyOrder_def split_beta Let_def 1 2 3 q(1) fst_conv snd_conv by simp
  have "handle_cmd ''MODIFY'' u = ?u4"
    by (simp add: handle_cmd_def m handle_msg_def)
  then show ?thesis
    using q(2-4) by simp
qed

section \<open>The claims\<close>

text \<open>
  Claim C7. After every command the book is uncrossed: whenever both sides are non-empty,
  the best buy price is strictly less than the best sell price. The best buy price is the
  highest buy price and the best sell price the lowest sell price. The books that the
  engine holds after a command are the reachable ones.
\<close>

theorem book_uncrossed:
  assumes "reachable b" and "best_buy b = Some pb" and "best_sell b = Some ps"
  shows "pb < ps \<and> (\<forall>L \<in> set (buy_levels b). price L \<le> pb)
    \<and> (\<forall>L \<in> set (sell_levels b). ps \<le> price L)"
proof -
  have ok: "Book_ok b" using assms(1) by (rule reachable_Book_ok)
  then have unc: "uncrossed b" and sok: "struct_ok b" by (simp_all add: Book_ok_def)
  from assms(2) obtain B Bs where B: "buy_levels b = B # Bs" "price B = pb"
    by (auto simp: best_buy_def split: list.splits)
  from assms(3) obtain S Ss where S: "rev (sell_levels b) = S # Ss" "price S = ps"
    by (auto simp: best_sell_def split: list.splits)
  then have S': "sell_levels b = rev Ss @ [S]"
    by (metis rev.simps(2) rev_rev_ident)
  have "sorted_wrt (>) (map price (buy_levels b))"
    using Levels_ok_sorted [OF struct_ok_Levels [OF sok, of Buy]] by simp
  then have buys: "\<forall>L \<in> set (buy_levels b). price L \<le> pb"
    using B by auto
  have "sorted_wrt (>) (map price (sell_levels b))"
    using Levels_ok_sorted [OF struct_ok_Levels [OF sok, of Sell]] by simp
  then have sells: "\<forall>L \<in> set (sell_levels b). ps \<le> price L"
    unfolding S' using S(2) by (auto simp: sorted_wrt_append)
  have "pb < ps"
    using unc B S' S(2) by (auto simp: uncrossed_def)
  then show ?thesis using buys sells by simp
qed

theorem book_uncrossed_witness:
  "reachable (book (run_messages [BuyOrder GFD 1000 10 ''b1'', SellOrder GFD 1100 5 ''s1'']))
   \<and> best_buy (book (run_messages [BuyOrder GFD 1000 10 ''b1'', SellOrder GFD 1100 5 ''s1'']))
       = Some 1000
   \<and> best_sell (book (run_messages [BuyOrder GFD 1000 10 ''b1'', SellOrder GFD 1100 5 ''s1'']))
       = Some 1100
   \<and> (1000 :: Price) < 1100"
  using book_uncrossed [OF reachable_run_messages example_cross_best_buy example_cross_best_sell]
    reachable_run_messages example_cross_best_buy example_cross_best_sell
  by blast

text \<open>
  Claim C10. In a call of \<^verbatim>\<open>Book::match\<close> every resting order is paired in at most one
  trade, the fill of a trade is the minimum of the leaves quantity and the quantity of the
  passive order as it rests at that time, and so the subtraction of the fill from the
  passive quantity in \<^verbatim>\<open>fill_orders\<close> meets the precondition of \<^verbatim>\<open>Qty::operator-=\<close>.
  The trades are those of the walk, before \<^verbatim>\<open>fill_orders\<close> runs over them.
\<close>

theorem match_fills_bounded:
  assumes "reachable b"
  shows "distinct (map (\<lambda>t. order_id (passive_order t)) (snd (match_walk side i q p b [])))
    \<and> (\<forall>t \<in> set (snd (match_walk side i q p b [])).
          Qty_minus_pre (qty (passive_order t)) (qty (aggressive_order t))
          \<and> (\<exists>L \<in> set (levels_of (opposite side) b).
                price L = passive_price t \<and> passive_order t \<in> set (orders L)))
    \<and> snd (match_walk side i q p b []) = fst (fill_candidates i p q (candidates side i p b))"
proof -
  have ok: "struct_ok b" using assms by (rule reachable_struct_ok)
  let ?ts = "fst (fill_candidates i p q (candidates side i p b))"
  have eq: "snd (match_walk side i q p b []) = ?ts"
    by (simp add: match_walk_eq)
  have d: "distinct (map (\<lambda>t. order_id (passive_order t)) ?ts)"
    using ok by (rule match_trades_distinct)
  have "Qty_minus_pre (qty (passive_order t)) (qty (aggressive_order t))
      \<and> (\<exists>L \<in> set (levels_of (opposite side) b).
            price L = passive_price t \<and> passive_order t \<in> set (orders L))"
    if t: "t \<in> set ?ts" for t
  proof -
    have c: "(passive_price t, passive_order t) \<in> set (candidates side i p b)"
      and le: "qty (aggressive_order t) \<le> qty (passive_order t)"
      using fill_candidates_trade [OF t] by simp_all
    have side: "side \<noteq> Side.Invalid"
      using c by (cases "side = Side.Invalid") simp_all
    from candidate_in_level [OF c side] obtain L where
      "L \<in> set (levels_of (opposite side) b)" "price L = passive_price t"
      "passive_order t \<in> set (orders L)"
      by (metis fst_conv snd_conv)
    then show ?thesis
      using le by (auto simp: Qty_minus_pre_def)
  qed
  then show ?thesis
    using d unfolding eq by blast
qed

theorem match_fills_bounded_witness:
  "reachable two_bids
   \<and> length (snd (match_walk Sell ''order3'' 15 1000 two_bids [])) = 2
   \<and> distinct (map (\<lambda>t. order_id (passive_order t))
        (snd (match_walk Sell ''order3'' 15 1000 two_bids [])))
   \<and> snd (match_walk Sell ''order3'' 15 1000 two_bids [])
       = fst (fill_candidates ''order3'' 1000 15 (candidates Sell ''order3'' 1000 two_bids))"
proof -
  have r: "reachable two_bids"
    unfolding two_bids_def by (rule reachable_run_messages)
  have "length (snd (match_walk Sell ''order3'' 15 1000 two_bids [])) = 2"
    by code_simp
  then show ?thesis
    using r match_fills_bounded [OF r, of Sell "''order3''" 15 1000] by blast
qed



text \<open>
  Claim C3. In a call of \<^verbatim>\<open>match\<close> for the identifier \<open>i\<close>, a resting order with that
  identifier is skipped: no trade has it as its passive order, and it is neither removed
  from the book nor altered. The orders with the identifier rest in the same levels, with
  the same quantity and in the same order, after the call as before it, and the index
  still leads to the same place.
\<close>

theorem self_match_skipped:
  assumes "reachable b"
  shows "(\<forall>t \<in> set (snd (snd (Book_match side i q p b []))). order_id (passive_order t) \<noteq> i)
    \<and> (\<forall>s. resting i (levels_of s (fst (snd (Book_match side i q p b []))))
            = resting i (levels_of s b))
    \<and> orders_by_id (fst (snd (Book_match side i q p b []))) i = orders_by_id b i"
proof -
  have ok: "struct_ok b" using assms by (rule reachable_struct_ok)
  let ?ts = "snd (match_walk side i q p b [])"
  have ns: "\<forall>t \<in> set ?ts. order_id (passive_order t) \<noteq> i"
    using walk_trade_not_self by blast
  then have 1: "\<forall>t \<in> set (snd (snd (Book_match side i q p b []))).
      order_id (passive_order t) \<noteq> i"
    by (simp add: Book_match_trades)
  have 3: "orders_by_id (fst (snd (Book_match side i q p b []))) i = orders_by_id b i"
    using ns by (auto simp: Book_match_book fill_orders_index)
  have 2: "resting i (levels_of s (fst (snd (Book_match side i q p b []))))
      = resting i (levels_of s b)" for s
  proof (cases "side = Side.Invalid")
    case True
    then show ?thesis by simp
  next
    case False
    have ts: "fst (fill_candidates i p q (candidates side i p b)) = ?ts"
      by (simp add: match_walk_eq)
    show ?thesis
      unfolding Book_match_result(3) [OF ok False] ts
      using fold_fill_level_keeps [OF ns]
      by (simp add: resting_filter_nonempty resting_map)
  qed
  show ?thesis using 1 2 3 by simp
qed

theorem self_match_skipped_witness:
  "reachable queued_bids
   \<and> map (\<lambda>t. order_id (passive_order t))
        (snd (snd (Book_match Sell ''order1'' 10 1000 queued_bids []))) = [''order2'']
   \<and> resting ''order1'' (levels_of Buy queued_bids)
       = [(1000, \<lparr>order_id = ''order1'', qty = 10, level = Some (Buy, 1000)\<rparr>)]
   \<and> resting ''order1'' (levels_of Buy (fst (snd (Book_match Sell ''order1'' 10 1000 queued_bids []))))
       = resting ''order1'' (levels_of Buy queued_bids)"
proof -
  have r: "reachable queued_bids"
    unfolding queued_bids_def by (rule reachable_run_messages)
  have "map (\<lambda>t. order_id (passive_order t))
        (snd (snd (Book_match Sell ''order1'' 10 1000 queued_bids []))) = [''order2'']"
    by code_simp
  moreover have "resting ''order1'' (levels_of Buy queued_bids)
       = [(1000, \<lparr>order_id = ''order1'', qty = 10, level = Some (Buy, 1000)\<rparr>)]"
    by code_simp
  ultimately show ?thesis
    using r self_match_skipped [OF r, of Sell "''order1''" 10 1000] by blast
qed



text \<open>
  Claim C8. For an order that rests in the book, the command \<^verbatim>\<open>MODIFY\<close> with the order's
  own side, price and quantity changes nothing: the engine matches the order against the
  opposite side, where no level is compatible with the price because the book is
  uncrossed, and \<^verbatim>\<open>Book::modify\<close> returns at once for an unchanged quantity at an
  unchanged level. No trade is emitted, and the book after the command is the book before
  it, so that the order keeps its place in the queue.
\<close>

theorem modify_same_is_noop:
  assumes "reachable b" and "L \<in> set (levels_of side b)" and "ord \<in> set (orders L)"
  shows "handle (ModifyOrder (order_id ord) side (price L) (qty ord)) \<lparr>book = b, trades = ts\<rparr>
    = \<lparr>book = b, trades = []\<rparr>"
proof -
  have Bok: "Book_ok b" using assms(1) by (rule reachable_Book_ok)
  then have ok: "struct_ok b" and unc: "uncrossed b" by (simp_all add: Book_ok_def)
  have cand: "candidates side (order_id ord) (price L) b = []"
    using unc assms(2) by (rule uncrossed_candidates_own)
  have bm: "Book_match side (order_id ord) (qty ord) (price L) b [] = (qty ord, b, [])"
    by (simp add: Book_match_def match_walk_eq cand)
  have q: "qty ord \<noteq> 0" using ok assms(2,3) by (rule resting_qty_nonzero)
  have md: "Book_modify side (order_id ord) (qty ord) (price L) b = b"
    using ok assms(2,3) by (rule modify_same_book)
  show ?thesis by (simp add: handle_modify_def bm q md)
qed

theorem modify_same_is_noop_witness:
  "reachable queued_bids
   \<and> levels_of Buy queued_bids
       = [\<lparr>level_qty = 20, price = 1000,
           orders = [\<lparr>order_id = ''order1'', qty = 10, level = Some (Buy, 1000)\<rparr>,
                     \<lparr>order_id = ''order2'', qty = 10, level = Some (Buy, 1000)\<rparr>]\<rparr>]
   \<and> handle (ModifyOrder ''order1'' Buy 1000 10) \<lparr>book = queued_bids, trades = []\<rparr>
       = \<lparr>book = queued_bids, trades = []\<rparr>"
proof -
  have r: "reachable queued_bids"
    unfolding queued_bids_def by (rule reachable_run_messages)
  have lv: "levels_of Buy queued_bids
       = [\<lparr>level_qty = 20, price = 1000,
           orders = [\<lparr>order_id = ''order1'', qty = 10, level = Some (Buy, 1000)\<rparr>,
                     \<lparr>order_id = ''order2'', qty = 10, level = Some (Buy, 1000)\<rparr>]\<rparr>]"
    by code_simp
  show ?thesis
    using r lv modify_same_is_noop [OF r, of
        "\<lparr>level_qty = 20, price = 1000,
           orders = [\<lparr>order_id = ''order1'', qty = 10, level = Some (Buy, 1000)\<rparr>,
                     \<lparr>order_id = ''order2'', qty = 10, level = Some (Buy, 1000)\<rparr>]\<rparr>"
        Buy "\<lparr>order_id = ''order1'', qty = 10, level = Some (Buy, 1000)\<rparr>" "[]"]
    by simp
qed




text \<open>
  Claim C2. \<^verbatim>\<open>MODIFY\<close> with an identifier that is not live is not without effect in the
  code: the engine runs \<^verbatim>\<open>match\<close> for the message before \<^verbatim>\<open>Book::modify\<close> looks the
  identifier up. With one buy order resting at 1000, a \<^verbatim>\<open>MODIFY\<close> of an unknown identifier
  to a sell at 1000 trades with the resting order and removes it from the book.
\<close>

theorem modify_unknown_matches:
  "orders_by_id resting_bid ''ghost'' = None
   \<and> show_Book resting_bid
       = ''SELL:'' @ newline @ ''BUY:'' @ newline @ ''1000 10'' @ newline
   \<and> show_Trades (trades (handle (ModifyOrder ''ghost'' Sell 1000 10)
         \<lparr>book = resting_bid, trades = []\<rparr>))
       = ''TRADE order1 1000 10 ghost 1000 10'' @ newline
   \<and> show_Book (book (handle (ModifyOrder ''ghost'' Sell 1000 10)
         \<lparr>book = resting_bid, trades = []\<rparr>))
       = ''SELL:'' @ newline @ ''BUY:'' @ newline
   \<and> ostr (run (new_CommandProcessor
         (''BUY GFD 1000 10 order1'' @ newline @ ''MODIFY ghost SELL 1000 10'' @ newline
            @ ''PRINT'' @ newline)))
       = ''TRADE order1 1000 10 ghost 1000 10'' @ newline
         @ ''SELL:'' @ newline @ ''BUY:'' @ newline"
proof -
  have 1: "orders_by_id resting_bid ''ghost'' = None"
    by code_simp
  have 2: "show_Book resting_bid
       = ''SELL:'' @ newline @ ''BUY:'' @ newline @ ''1000 10'' @ newline"
    by code_simp
  have 3: "show_Trades (trades (handle (ModifyOrder ''ghost'' Sell 1000 10)
         \<lparr>book = resting_bid, trades = []\<rparr>))
       = ''TRADE order1 1000 10 ghost 1000 10'' @ newline"
    by code_simp
  have 4: "show_Book (book (handle (ModifyOrder ''ghost'' Sell 1000 10)
         \<lparr>book = resting_bid, trades = []\<rparr>))
       = ''SELL:'' @ newline @ ''BUY:'' @ newline"
    by code_simp
  have 5: "ostr (run (new_CommandProcessor
         (''BUY GFD 1000 10 order1'' @ newline @ ''MODIFY ghost SELL 1000 10'' @ newline
            @ ''PRINT'' @ newline)))
       = ''TRADE order1 1000 10 ghost 1000 10'' @ newline
         @ ''SELL:'' @ newline @ ''BUY:'' @ newline"
    by code_simp
  show ?thesis using 1 2 3 4 5 by simp
qed

text \<open>
  Claim C5, as the specification states it, fails for an order whose identifier is live
  in the book: the order is matched, a residue is left and the time in force is
  \<^verbatim>\<open>GFD\<close>, but \<^verbatim>\<open>Book::add\<close> rejects the identifier and the residue is not added. After
  a buy of 5 at 900 a second buy of 5 at 900 with the same identifier leaves the book as
  it was, with 5 at 900.
\<close>

theorem add_duplicate_not_added:
  "fst (Book_match Buy ''order1'' 5 900 one_bid []) = 5
   \<and> book (handle (BuyOrder GFD 900 5 ''order1'') \<lparr>book = one_bid, trades = []\<rparr>) = one_bid
   \<and> map (\<lambda>L. (price L, level_qty L, map (\<lambda>ord. (order_id ord, qty ord)) (orders L)))
        (buy_levels one_bid) = [(900, 5, [(''order1'', 5)])]"
proof -
  have 1: "fst (Book_match Buy ''order1'' 5 900 one_bid []) = 5"
    by code_simp
  have c: "candidates Buy ''order1'' 900 one_bid = []"
    by code_simp
  have l: "orders_by_id one_bid ''order1'' \<noteq> None"
    by code_simp
  have m: "Book_match Buy ''order1'' 5 900 one_bid [] = (5, one_bid, [])"
    by (simp add: Book_match_def match_walk_eq c)
  have 2: "book (handle (BuyOrder GFD 900 5 ''order1'') \<lparr>book = one_bid, trades = []\<rparr>)
      = one_bid"
    using l by (simp add: handle_add_eq m Book_add_live)
  have 3: "map (\<lambda>L. (price L, level_qty L, map (\<lambda>ord. (order_id ord, qty ord)) (orders L)))
        (buy_levels one_bid) = [(900, 5, [(''order1'', 5)])]"
    by code_simp
  show ?thesis using 1 2 3 by simp
qed

text \<open>
  Claim C5, amended. The engine handles a buy or a sell order by a call of \<^verbatim>\<open>match\<close>
  first, whose trades it keeps. If the leaves quantity is zero, or the time in force is
  not \<^verbatim>\<open>GFD\<close>, the book is the book after the match: a residue of an \<^verbatim>\<open>IOC\<close> order is
  discarded. If a residue is left and the time in force is \<^verbatim>\<open>GFD\<close>, the residue is added
  to the book unless the identifier is live there, in which case the book stays as it is
  after the match. When it is added, the index maps the identifier to the side and the
  price of the order, the order stands with the leaves quantity at the tail of the queue
  at that price on that side, the queues at the other prices and the opposite side are
  as after the match.
\<close>

theorem add_order_policy:
  assumes "reachable b" and "side \<noteq> Side.Invalid"
  shows "trades (handle_add side t p q i \<lparr>book = b, trades = ts0\<rparr>)
      = snd (snd (Book_match side i q p b []))
    \<and> (fst (Book_match side i q p b []) = 0 \<or> t \<noteq> GFD \<longrightarrow>
         book (handle_add side t p q i \<lparr>book = b, trades = ts0\<rparr>)
           = fst (snd (Book_match side i q p b [])))
    \<and> (fst (Book_match side i q p b []) \<noteq> 0 \<and> t = GFD
         \<and> orders_by_id (fst (snd (Book_match side i q p b []))) i \<noteq> None \<longrightarrow>
         book (handle_add side t p q i \<lparr>book = b, trades = ts0\<rparr>)
           = fst (snd (Book_match side i q p b [])))
    \<and> (fst (Book_match side i q p b []) \<noteq> 0 \<and> t = GFD
         \<and> orders_by_id (fst (snd (Book_match side i q p b []))) i = None \<longrightarrow>
         orders_by_id (book (handle_add side t p q i \<lparr>book = b, trades = ts0\<rparr>))
           = (orders_by_id (fst (snd (Book_match side i q p b []))))(i \<mapsto> (side, p))
         \<and> levels_of (opposite side) (book (handle_add side t p q i \<lparr>book = b, trades = ts0\<rparr>))
           = levels_of (opposite side) (fst (snd (Book_match side i q p b [])))
         \<and> (\<forall>p'. orders_at p'
               (levels_of side (book (handle_add side t p q i \<lparr>book = b, trades = ts0\<rparr>)))
             = (if p' = p
                then orders_at p (levels_of side (fst (snd (Book_match side i q p b []))))
                  @ [\<lparr>order_id = i, qty = fst (Book_match side i q p b []),
                      level = Some (side, p)\<rparr>]
                else orders_at p' (levels_of side (fst (snd (Book_match side i q p b [])))))))"
proof -
  let ?leaves = "fst (Book_match side i q p b [])"
  let ?b1 = "fst (snd (Book_match side i q p b []))"
  have ok1: "struct_ok ?b1"
    using reachable_struct_ok [OF assms(1)] by (rule struct_ok_match)
  have 1: "trades (handle_add side t p q i \<lparr>book = b, trades = ts0\<rparr>)
      = snd (snd (Book_match side i q p b []))"
    by (simp add: handle_add_eq)
  have 2: "book (handle_add side t p q i \<lparr>book = b, trades = ts0\<rparr>) = ?b1"
    if "?leaves = 0 \<or> t \<noteq> GFD"
    using that by (simp add: handle_add_eq)
  have 3: "book (handle_add side t p q i \<lparr>book = b, trades = ts0\<rparr>) = ?b1"
    if "orders_by_id ?b1 i \<noteq> None"
    using that by (simp add: handle_add_eq Book_add_live)
  have 4: "book (handle_add side t p q i \<lparr>book = b, trades = ts0\<rparr>)
      = Book_add side i ?leaves p ?b1"
    if "?leaves \<noteq> 0" "t = GFD"
    using that by (simp add: handle_add_eq)
  note fresh = add_levels_fresh [OF ok1 assms(2), where i = i and q = ?leaves and p = p]
  have 5: "orders_by_id (book (handle_add side t p q i \<lparr>book = b, trades = ts0\<rparr>))
        = (orders_by_id ?b1)(i \<mapsto> (side, p))
      \<and> levels_of (opposite side) (book (handle_add side t p q i \<lparr>book = b, trades = ts0\<rparr>))
        = levels_of (opposite side) ?b1
      \<and> (\<forall>p'. orders_at p'
            (levels_of side (book (handle_add side t p q i \<lparr>book = b, trades = ts0\<rparr>)))
          = (if p' = p
             then orders_at p (levels_of side ?b1)
               @ [\<lparr>order_id = i, qty = ?leaves, level = Some (side, p)\<rparr>]
             else orders_at p' (levels_of side ?b1)))"
    if "?leaves \<noteq> 0 \<and> t = GFD \<and> orders_by_id ?b1 i = None"
  proof -
    have a: "?leaves \<noteq> 0" and b: "t = GFD" and c: "orders_by_id ?b1 i = None"
      using that by simp_all
    show ?thesis unfolding 4 [OF a b] using fresh [OF c] by simp
  qed
  have 6: "book (handle_add side t p q i \<lparr>book = b, trades = ts0\<rparr>) = ?b1"
    if "?leaves \<noteq> 0 \<and> t = GFD \<and> orders_by_id ?b1 i \<noteq> None"
    using that 3 by simp
  show ?thesis
    apply (rule conjI, rule 1)
    apply (rule conjI, rule impI, erule 2)
    apply (rule conjI, rule impI, erule 6)
    apply (rule impI, erule 5)
    done
qed

theorem add_order_policy_witness:
  "reachable one_bid \<and> Buy \<noteq> Side.Invalid
   \<and> fst (Book_match Buy ''order2'' 7 900 one_bid []) = 7
   \<and> orders_by_id (fst (snd (Book_match Buy ''order2'' 7 900 one_bid []))) ''order2'' = None
   \<and> orders_at 900 (levels_of Buy one_bid)
       = [\<lparr>order_id = ''order1'', qty = 5, level = Some (Buy, 900)\<rparr>]
   \<and> orders_at 900 (levels_of Buy
         (book (handle_add Buy GFD 900 7 ''order2'' \<lparr>book = one_bid, trades = []\<rparr>)))
       = [\<lparr>order_id = ''order1'', qty = 5, level = Some (Buy, 900)\<rparr>,
          \<lparr>order_id = ''order2'', qty = 7, level = Some (Buy, 900)\<rparr>]
   \<and> book (handle_add Buy GFD 900 5 ''order1'' \<lparr>book = one_bid, trades = []\<rparr>)
       = fst (snd (Book_match Buy ''order1'' 5 900 one_bid []))"
proof -
  have r: "reachable one_bid"
    unfolding one_bid_def by (rule reachable_run_messages)
  have 1: "fst (Book_match Buy ''order2'' 7 900 one_bid []) = 7"
    by code_simp
  have 2: "orders_by_id (fst (snd (Book_match Buy ''order2'' 7 900 one_bid []))) ''order2''
      = None"
    by code_simp
  have 3: "orders_at 900 (levels_of Buy (fst (snd (Book_match Buy ''order2'' 7 900 one_bid []))))
       = [\<lparr>order_id = ''order1'', qty = 5, level = Some (Buy, 900)\<rparr>]"
    by code_simp
  have 4: "orders_at 900 (levels_of Buy one_bid)
       = [\<lparr>order_id = ''order1'', qty = 5, level = Some (Buy, 900)\<rparr>]"
    by code_simp
  have 5: "fst (Book_match Buy ''order1'' 5 900 one_bid []) = 5"
    by code_simp
  have 6: "orders_by_id (fst (snd (Book_match Buy ''order1'' 5 900 one_bid []))) ''order1''
      \<noteq> None"
    by code_simp
  show ?thesis
    using r 1 2 3 4 5 6
      add_order_policy [OF r, of Buy GFD 900 7 "''order2''" "[]"]
      add_order_policy [OF r, of Buy GFD 900 5 "''order1''" "[]"]
    by simp
qed

text \<open>
  Claim C9, as the specification states it, fails: after a price or a quantity that is
  not a number the stream has failed, the next extraction of a command fails, and the
  loop of \<^verbatim>\<open>run\<close> ends. On the input of the unit test, whose two orders are malformed,
  the \<^verbatim>\<open>PRINT\<close> that follows them is not executed: nothing is written, and the input
  is left unread from the price on, whereas \<^verbatim>\<open>PRINT\<close> alone writes the empty book.
\<close>

theorem parse_failure_ends_run:
  "ostr (run (new_CommandProcessor invalid_price_and_qty)) = []
   \<and> istr (run (new_CommandProcessor invalid_price_and_qty))
       = \<lparr>buf = ''a 5 order1'' @ newline @ ''BUY GFD 900 b order1'' @ newline
               @ ''PRINT'' @ newline,
          failed = True\<rparr>
   \<and> ostr (run (new_CommandProcessor (''PRINT'' @ newline)))
       = ''SELL:'' @ newline @ ''BUY:'' @ newline"
proof -
  have 1: "ostr (run (new_CommandProcessor invalid_price_and_qty)) = []"
    by code_simp
  have 2: "istr (run (new_CommandProcessor invalid_price_and_qty))
       = \<lparr>buf = ''a 5 order1'' @ newline @ ''BUY GFD 900 b order1'' @ newline
               @ ''PRINT'' @ newline,
          failed = True\<rparr>"
    by code_simp
  have 3: "ostr (run (new_CommandProcessor (''PRINT'' @ newline)))
       = ''SELL:'' @ newline @ ''BUY:'' @ newline"
    by code_simp
  show ?thesis using 1 2 3 by simp
qed

text \<open>
  Claim C9, amended. A stream that has failed ends the run: nothing more is decoded or
  executed. A token that is not a verb is dropped alone, and the run goes on with what
  follows it. A \<^verbatim>\<open>BUY\<close>, \<^verbatim>\<open>SELL\<close> or \<^verbatim>\<open>MODIFY\<close> whose price or quantity is not a number
  (a token that starts with neither a digit nor a sign) is dropped, and the stream has
  failed: the run ends there with the engine and the output as they were before the
  command, whatever follows in the input. When it is the price that is not a number, the
  input is left unread from the price on.
\<close>

theorem malformed_command_handling:
  assumes "list_all isspace ws0"
  shows "(failed (istr s) \<longrightarrow> run s = s)
    \<and> (token w \<and> w \<notin> set verbs \<and> (rest = [] \<or> isspace (hd rest))
        \<and> istr s = \<lparr>buf = ws0 @ w @ rest, failed = False\<rparr>
       \<longrightarrow> run s = run (s\<lparr>istr := \<lparr>buf = rest, failed = False\<rparr>\<rparr>))
    \<and> ((verb = ''BUY'' \<or> verb = ''SELL'') \<and> spaces ws1 \<and> token t \<and> spaces ws2
        \<and> not_number x
        \<and> istr s = \<lparr>buf = ws0 @ verb @ ws1 @ t @ ws2 @ x @ rest, failed = False\<rparr>
       \<longrightarrow> run s = s\<lparr>istr := \<lparr>buf = x @ rest, failed = True\<rparr>, tif_str := t\<rparr>)
    \<and> ((verb = ''BUY'' \<or> verb = ''SELL'') \<and> spaces ws1 \<and> token t \<and> spaces ws2
        \<and> number p \<and> spaces ws3 \<and> not_number x
        \<and> istr s = \<lparr>buf = ws0 @ verb @ ws1 @ t @ ws2 @ p @ ws3 @ x @ rest, failed = False\<rparr>
       \<longrightarrow> matching_engine (run s) = matching_engine s \<and> ostr (run s) = ostr s
           \<and> failed (istr (run s)))
    \<and> (spaces ws1 \<and> token i \<and> spaces ws2 \<and> token sd \<and> spaces ws3 \<and> not_number x
        \<and> istr s = \<lparr>buf = ws0 @ ''MODIFY'' @ ws1 @ i @ ws2 @ sd @ ws3 @ x @ rest,
                     failed = False\<rparr>
       \<longrightarrow> run s = s\<lparr>istr := \<lparr>buf = x @ rest, failed = True\<rparr>, side_str := sd\<rparr>)
    \<and> (spaces ws1 \<and> token i \<and> spaces ws2 \<and> token sd \<and> spaces ws3 \<and> number p
        \<and> spaces ws4 \<and> not_number x
        \<and> istr s = \<lparr>buf = ws0 @ ''MODIFY'' @ ws1 @ i @ ws2 @ sd @ ws3 @ p @ ws4 @ x @ rest,
                     failed = False\<rparr>
       \<longrightarrow> matching_engine (run s) = matching_engine s \<and> ostr (run s) = ostr s
           \<and> failed (istr (run s)))"
proof -
  have c1: "run s = s" if "failed (istr s)"
    using that by (rule run_failed)
  have c2: "run s = run (s\<lparr>istr := \<lparr>buf = rest, failed = False\<rparr>\<rparr>)"
    if "token w \<and> w \<notin> set verbs \<and> (rest = [] \<or> isspace (hd rest))
        \<and> istr s = \<lparr>buf = ws0 @ w @ rest, failed = False\<rparr>"
  proof -
    have a: "token w" "w \<notin> set verbs" "rest = [] \<or> isspace (hd rest)"
      "istr s = \<lparr>buf = ws0 @ w @ rest, failed = False\<rparr>"
      using that by simp_all
    show ?thesis
      using run_token [OF a(4) assms a(1,3)] by (simp add: handle_cmd_unknown [OF a(2)])
  qed
  have verb: "token verb" if "verb = ''BUY'' \<or> verb = ''SELL''"
    using that token_verbs(1,2) by auto
  have c3: "run s = s\<lparr>istr := \<lparr>buf = x @ rest, failed = True\<rparr>, tif_str := t\<rparr>"
    if "(verb = ''BUY'' \<or> verb = ''SELL'') \<and> spaces ws1 \<and> token t \<and> spaces ws2
        \<and> not_number x
        \<and> istr s = \<lparr>buf = ws0 @ verb @ ws1 @ t @ ws2 @ x @ rest, failed = False\<rparr>"
  proof -
    have a: "verb = ''BUY'' \<or> verb = ''SELL''" "spaces ws1" "token t" "spaces ws2"
      "not_number x"
      "istr s = \<lparr>buf = ws0 @ verb @ ws1 @ t @ ws2 @ x @ rest, failed = False\<rparr>"
      using that by simp_all
    let ?s = "s\<lparr>istr := \<lparr>buf = ws1 @ t @ ws2 @ x @ rest, failed = False\<rparr>\<rparr>"
    have r: "run s = run (handle_cmd verb ?s)"
      using a(6) assms verb [OF a(1)] spaces_hd [OF a(2)] by (rule run_token)
    have i: "istr ?s = \<lparr>buf = ws1 @ t @ ws2 @ x @ rest, failed = False\<rparr>" by simp
    have "handle_cmd verb ?s
        = ?s\<lparr>istr := \<lparr>buf = x @ rest, failed = True\<rparr>, tif_str := t\<rparr>"
      using a(1) add_bad_price [OF i a(2-5)] by auto
    then have h: "handle_cmd verb ?s
        = s\<lparr>istr := \<lparr>buf = x @ rest, failed = True\<rparr>, tif_str := t\<rparr>"
      by simp
    show ?thesis unfolding r h by (rule run_failed) simp
  qed
  have c4: "matching_engine (run s) = matching_engine s \<and> ostr (run s) = ostr s
           \<and> failed (istr (run s))"
    if "(verb = ''BUY'' \<or> verb = ''SELL'') \<and> spaces ws1 \<and> token t \<and> spaces ws2
        \<and> number p \<and> spaces ws3 \<and> not_number x
        \<and> istr s = \<lparr>buf = ws0 @ verb @ ws1 @ t @ ws2 @ p @ ws3 @ x @ rest, failed = False\<rparr>"
  proof -
    have a: "verb = ''BUY'' \<or> verb = ''SELL''" "spaces ws1" "token t" "spaces ws2"
      "number p" "spaces ws3" "not_number x"
      "istr s = \<lparr>buf = ws0 @ verb @ ws1 @ t @ ws2 @ p @ ws3 @ x @ rest, failed = False\<rparr>"
      using that by simp_all
    let ?s = "s\<lparr>istr := \<lparr>buf = ws1 @ t @ ws2 @ p @ ws3 @ x @ rest, failed = False\<rparr>\<rparr>"
    have r: "run s = run (handle_cmd verb ?s)"
      using a(8) assms verb [OF a(1)] spaces_hd [OF a(2)] by (rule run_token)
    have i: "istr ?s = \<lparr>buf = ws1 @ t @ ws2 @ p @ ws3 @ x @ rest, failed = False\<rparr>"
      by simp
    have h: "matching_engine (handle_cmd verb ?s) = matching_engine ?s
      \<and> ostr (handle_cmd verb ?s) = ostr ?s \<and> failed (istr (handle_cmd verb ?s))"
      using a(1) add_bad_qty [OF i a(2-7)] by auto
    then have "run (handle_cmd verb ?s) = handle_cmd verb ?s"
      by (simp add: run_failed)
    then show ?thesis using h by (simp add: r)
  qed
  have c5: "run s = s\<lparr>istr := \<lparr>buf = x @ rest, failed = True\<rparr>, side_str := sd\<rparr>"
    if "spaces ws1 \<and> token i \<and> spaces ws2 \<and> token sd \<and> spaces ws3 \<and> not_number x
        \<and> istr s = \<lparr>buf = ws0 @ ''MODIFY'' @ ws1 @ i @ ws2 @ sd @ ws3 @ x @ rest,
                     failed = False\<rparr>"
  proof -
    have a: "spaces ws1" "token i" "spaces ws2" "token sd" "spaces ws3" "not_number x"
      "istr s = \<lparr>buf = ws0 @ ''MODIFY'' @ ws1 @ i @ ws2 @ sd @ ws3 @ x @ rest,
                     failed = False\<rparr>"
      using that by simp_all
    let ?s = "s\<lparr>istr := \<lparr>buf = ws1 @ i @ ws2 @ sd @ ws3 @ x @ rest, failed = False\<rparr>\<rparr>"
    have r: "run s = run (handle_cmd ''MODIFY'' ?s)"
      using a(7) assms token_verbs(4) spaces_hd [OF a(1)] by (rule run_token)
    have i: "istr ?s = \<lparr>buf = ws1 @ i @ ws2 @ sd @ ws3 @ x @ rest, failed = False\<rparr>"
      by simp
    have "handle_cmd ''MODIFY'' ?s
        = ?s\<lparr>istr := \<lparr>buf = x @ rest, failed = True\<rparr>, side_str := sd\<rparr>"
      using i a(1-6) by (rule modify_bad_price)
    then have h: "handle_cmd ''MODIFY'' ?s
        = s\<lparr>istr := \<lparr>buf = x @ rest, failed = True\<rparr>, side_str := sd\<rparr>"
      by simp
    show ?thesis unfolding r h by (rule run_failed) simp
  qed
  have c6: "matching_engine (run s) = matching_engine s \<and> ostr (run s) = ostr s
           \<and> failed (istr (run s))"
    if "spaces ws1 \<and> token i \<and> spaces ws2 \<and> token sd \<and> spaces ws3 \<and> number p
        \<and> spaces ws4 \<and> not_number x
        \<and> istr s = \<lparr>buf = ws0 @ ''MODIFY'' @ ws1 @ i @ ws2 @ sd @ ws3 @ p @ ws4 @ x @ rest,
                     failed = False\<rparr>"
  proof -
    have a: "spaces ws1" "token i" "spaces ws2" "token sd" "spaces ws3" "number p"
      "spaces ws4" "not_number x"
      "istr s = \<lparr>buf = ws0 @ ''MODIFY'' @ ws1 @ i @ ws2 @ sd @ ws3 @ p @ ws4 @ x @ rest,
                     failed = False\<rparr>"
      using that by simp_all
    let ?s = "s\<lparr>istr := \<lparr>buf = ws1 @ i @ ws2 @ sd @ ws3 @ p @ ws4 @ x @ rest,
      failed = False\<rparr>\<rparr>"
    have r: "run s = run (handle_cmd ''MODIFY'' ?s)"
      using a(9) assms token_verbs(4) spaces_hd [OF a(1)] by (rule run_token)
    have i: "istr ?s = \<lparr>buf = ws1 @ i @ ws2 @ sd @ ws3 @ p @ ws4 @ x @ rest,
      failed = False\<rparr>"
      by simp
    have h: "matching_engine (handle_cmd ''MODIFY'' ?s) = matching_engine ?s
      \<and> ostr (handle_cmd ''MODIFY'' ?s) = ostr ?s
      \<and> failed (istr (handle_cmd ''MODIFY'' ?s))"
      using i a(1-8) by (rule modify_bad_qty)
    then have "run (handle_cmd ''MODIFY'' ?s) = handle_cmd ''MODIFY'' ?s"
      by (simp add: run_failed)
    then show ?thesis using h by (simp add: r)
  qed
  show ?thesis
    apply (rule conjI, rule impI, erule c1)
    apply (rule conjI, rule impI, erule c2)
    apply (rule conjI, rule impI, erule c3)
    apply (rule conjI, rule impI, erule c4)
    apply (rule conjI, rule impI, erule c5)
    apply (rule impI, erule c6)
    done
qed

theorem malformed_command_handling_witness:
  "list_all isspace []
   \<and> run (new_CommandProcessor (''BUY GFD a 5 order1'' @ newline @ ''PRINT'' @ newline))
       = (new_CommandProcessor (''BUY GFD a 5 order1'' @ newline @ ''PRINT'' @ newline))
           \<lparr>istr := \<lparr>buf = ''a 5 order1'' @ newline @ ''PRINT'' @ newline, failed = True\<rparr>,
             tif_str := ''GFD''\<rparr>
   \<and> ostr (run (new_CommandProcessor (''BUY GFD a 5 order1'' @ newline @ ''PRINT'' @ newline)))
       = []
   \<and> run (new_CommandProcessor (''HELLO'' @ newline @ ''PRINT'' @ newline))
       = run ((new_CommandProcessor (''HELLO'' @ newline @ ''PRINT'' @ newline))
           \<lparr>istr := \<lparr>buf = newline @ ''PRINT'' @ newline, failed = False\<rparr>\<rparr>)"
proof -
  let ?s = "new_CommandProcessor (''BUY GFD a 5 order1'' @ newline @ ''PRINT'' @ newline)"
  let ?h = "new_CommandProcessor (''HELLO'' @ newline @ ''PRINT'' @ newline)"
  have e: "list_all isspace []" by simp
  have sp: "spaces '' ''" by code_simp
  have tk: "token ''GFD''" by code_simp
  have nn: "not_number ''a''" by code_simp
  have i: "istr ?s = \<lparr>buf = [] @ ''BUY'' @ '' '' @ ''GFD'' @ '' '' @ ''a''
      @ ('' 5 order1'' @ newline @ ''PRINT'' @ newline), failed = False\<rparr>"
    by (simp add: new_CommandProcessor_def)
  have 1: "run ?s = ?s\<lparr>istr := \<lparr>buf = ''a'' @ ('' 5 order1'' @ newline @ ''PRINT'' @ newline),
      failed = True\<rparr>, tif_str := ''GFD''\<rparr>"
    using malformed_command_handling [OF e, where s = "?s" and verb = "''BUY''"
        and ?ws1.0 = "'' ''" and t = "''GFD''" and ?ws2.0 = "'' ''" and x = "''a''"
        and rest = "'' 5 order1'' @ newline @ ''PRINT'' @ newline"]
      sp tk nn i
    by blast
  have th: "token ''HELLO''" by code_simp
  have nv: "''HELLO'' \<notin> set verbs" by code_simp
  have nl: "newline @ ''PRINT'' @ newline = [] \<or> isspace (hd (newline @ ''PRINT'' @ newline))"
    by code_simp
  have j: "istr ?h = \<lparr>buf = [] @ ''HELLO'' @ (newline @ ''PRINT'' @ newline), failed = False\<rparr>"
    by (simp add: new_CommandProcessor_def)
  have 2: "run ?h
      = run (?h\<lparr>istr := \<lparr>buf = newline @ ''PRINT'' @ newline, failed = False\<rparr>\<rparr>)"
    using malformed_command_handling [OF e, where s = "?h" and w = "''HELLO''"
        and rest = "newline @ ''PRINT'' @ newline"]
      th nv nl j
    by blast
  have 3: "ostr (run ?s) = []"
    unfolding 1 by (simp add: new_CommandProcessor_def)
  show ?thesis
    using e 1 2 3 by simp
qed

end
